theory Spec2Isabelle
  imports Main
begin

section \<open>Literals, clauses, formulas\<close>

text \<open>
  The solver of \<^verbatim>\<open>solver.go\<close> works on the \<^verbatim>\<open>cnf\<close> encoding: a literal is a
  nonzero signed integer, a clause a slice of literals, a formula a slice of clauses.
  The variable of a literal is its absolute value.
\<close>

type_synonym Literal = int
type_synonym Clause = "Literal list"
type_synonym Formula = "Clause list"

datatype satResult = satResultUndef | satResultUnsat | satResultSat

datatype Tribool = TriTrue | TriFalse | Undef

text \<open>The two fatal contract violations: both are panics in the Go code.\<close>

datatype error = AssertAssigned Literal | DecideLiteralTaken Literal

text \<open>
  Modelled from the spec: \<^verbatim>\<open>cnf.Literal.Negate\<close> is not among the sources; negation
  flips the polarity of a literal.
\<close>

definition Negate :: "Literal \<Rightarrow> Literal" where
  "Negate l = - l"

section \<open>The trail\<close>

text \<open>
  Modelled from the spec: the type \<^verbatim>\<open>trail\<close> behind the field \<^verbatim>\<open>s.m\<close> and its
  methods are not among the sources (only their calls in \<^verbatim>\<open>solver.go\<close> are). The
  trail is the chronological list of asserted literals, each marked as a decision or
  not. Decision level \<open>k \<ge> 1\<close> starts at the \<open>k\<close>-th decision element; level 0 is what
  precedes the first decision.
\<close>

record trailElem =
  Lit :: Literal
  Decision :: bool

record trail =
  elems :: "trailElem list"

definition newTrail :: trail where
  "newTrail = \<lparr>elems = []\<rparr>"

definition lits :: "trail \<Rightarrow> Literal list" where
  "lits t = map Lit (elems t)"

definition tvars :: "trail \<Rightarrow> int set" where
  "tvars t = abs ` set (lits t)"

text \<open>
  Modelled from the spec: \<open>value(lit)\<close> is True if the literal holds, False if it is
  falsified, Undefined if its variable is unassigned.
\<close>

definition ValueLit :: "trail \<Rightarrow> Literal \<Rightarrow> Tribool" where
  "ValueLit t l =
     (if l \<in> set (lits t) then TriTrue
      else if Negate l \<in> set (lits t) then TriFalse
      else Undef)"

text \<open>Modelled from the spec: \<open>assignedCount()\<close>, the number of distinct assigned variables.\<close>

definition Len :: "trail \<Rightarrow> nat" where
  "Len t = card (tvars t)"

text \<open>Modelled from the spec: \<open>openDecisions()\<close> and \<open>currentLevel()\<close>.\<close>

definition DecisionsLen :: "trail \<Rightarrow> nat" where
  "DecisionsLen t = length (filter Decision (elems t))"

definition CurrentLevel :: "trail \<Rightarrow> nat" where
  "CurrentLevel t = DecisionsLen t"

text \<open>
  Modelled from the spec: \<open>levelOf(lit)\<close> is the decision level of the literal's
  variable. The spec defines it only for an assigned variable; for an unassigned one the
  model returns 0, the zero value of Go's \<^verbatim>\<open>int\<close>.
\<close>

fun levelFrom :: "nat \<Rightarrow> trailElem list \<Rightarrow> int \<Rightarrow> nat" where
  "levelFrom k [] v = 0"
| "levelFrom k (e # es) v =
     (let k' = (if Decision e then Suc k else k)
      in if \<bar>Lit e\<bar> = v then k' else levelFrom k' es v)"

definition Level :: "trail \<Rightarrow> Literal \<Rightarrow> nat" where
  "Level t l = levelFrom 0 (elems t) \<bar>l\<bar>"

text \<open>
  Modelled from the spec: the index \<^verbatim>\<open>s.m.set\<close>, read by \<^verbatim>\<open>applyBackjump\<close>, maps a
  literal of the trail to its decision level; a literal that is not on the trail reads
  as 0, as a missing key of a Go map does.
\<close>

definition set_m :: "trail \<Rightarrow> Literal \<Rightarrow> nat" where
  "set_m t l = (if l \<in> set (lits t) then Level t l else 0)"

text \<open>
  Modelled from the spec: \<open>isUnit(clause, lit)\<close> holds iff every literal of the clause
  other than \<open>lit\<close> is falsified and \<open>lit\<close> is unassigned.
\<close>

definition IsUnit :: "trail \<Rightarrow> Clause \<Rightarrow> Literal \<Rightarrow> bool" where
  "IsUnit t cl l =
     (ValueLit t l = Undef \<and> list_all (\<lambda>l'. l' = l \<or> ValueLit t l' = TriFalse) cl)"

definition IsClauseFalse :: "trail \<Rightarrow> Clause \<Rightarrow> bool" where
  "IsClauseFalse t cl = list_all (\<lambda>l. ValueLit t l = TriFalse) cl"

text \<open>
  Modelled from the spec: \<open>isFormulaFalse(formula)\<close> returns some clause all of whose
  literals are falsified, or none; the model returns the first one in formula order.
  \<^verbatim>\<open>IsZero\<close> of the result is \<open>None\<close> here.
\<close>

definition IsFormulaFalse :: "trail \<Rightarrow> Formula \<Rightarrow> Clause option" where
  "IsFormulaFalse t fm = find (IsClauseFalse t) fm"

text \<open>
  Modelled from the spec: \<open>trimToLevel(level)\<close> discards every trail entry asserted
  at a level above \<open>level\<close> and is a no-op when the current level is not above it.
\<close>

fun trimElems :: "nat \<Rightarrow> trailElem list \<Rightarrow> trailElem list" where
  "trimElems k [] = []"
| "trimElems k (e # es) =
     (if Decision e then (case k of 0 \<Rightarrow> [] | Suc j \<Rightarrow> e # trimElems j es)
      else e # trimElems k es)"

definition TrimToLevel :: "trail \<Rightarrow> nat \<Rightarrow> trail" where
  "TrimToLevel t level = t\<lparr>elems := trimElems level (elems t)\<rparr>"

text \<open>
  Modelled from the spec: \<open>assert(lit, reason)\<close> appends the literal at the current
  level; a decision first opens a new level.
\<close>

definition Assert :: "trail \<Rightarrow> Literal \<Rightarrow> bool \<Rightarrow> trail" where
  "Assert t l d = t\<lparr>elems := elems t @ [\<lparr>Lit = l, Decision = d\<rparr>]\<rparr>"

section \<open>The solver state\<close>

text \<open>
  The fields of \<^verbatim>\<open>Solver\<close> that \<^verbatim>\<open>solver.go\<close> reads or writes. The fields \<^verbatim>\<open>f\<close>,
  \<^verbatim>\<open>m\<close> and \<^verbatim>\<open>c\<close> are \<open>s_f\<close>, \<open>s_m\<close> and \<open>s_c\<close> here. The maps with \<^verbatim>\<open>struct{}\<close>
  values (\<^verbatim>\<open>vars\<close>, \<^verbatim>\<open>cH\<close>, \<^verbatim>\<open>cP\<close>) are sets. \<^verbatim>\<open>cN\<close> is a Go \<^verbatim>\<open>int\<close>: it can go
  below zero, and it never leaves the range of 64 bits on a trail that fits in memory.
  Tracing only prints and is left out.
\<close>

record solver =
  decideLiterals :: "int list"
  result :: satResult
  s_f :: Formula
  s_m :: trail
  reasonMap :: "Literal \<rightharpoonup> Clause"
  vars :: "int set"
  s_c :: Clause
  cH :: "Literal set"
  cP :: "Literal set"
  cL :: Literal
  cN :: int

definition New :: solver where
  "New = \<lparr>decideLiterals = [], result = satResultUndef, s_f = [], s_m = newTrail,
          reasonMap = Map.empty, vars = {}, s_c = [], cH = {}, cP = {}, cL = 0, cN = 0\<rparr>"

text \<open>
  Modelled from the spec: \<^verbatim>\<open>AddFormula\<close> is not among the sources. Formula ingestion
  stores the clauses; the variable universe is the set of absolute values appearing.
\<close>

definition AddFormula :: "Formula \<Rightarrow> solver \<Rightarrow> solver" where
  "AddFormula fm s =
     s\<lparr>s_f := s_f s @ fm, vars := vars s \<union> abs ` (\<Union>cl \<in> set fm. set cl)\<rparr>"

text \<open>
  Modelled from the spec: the solver's \<^verbatim>\<open>assertLiteral(lit, decision)\<close> of this
  version is not among the sources. Asserting a literal whose variable is already
  assigned is a fatal contract violation.
\<close>

definition assertLiteral :: "Literal \<Rightarrow> bool \<Rightarrow> solver \<Rightarrow> error + solver" where
  "assertLiteral l d s =
     (if ValueLit (s_m s) l \<noteq> Undef then Inl (AssertAssigned l)
      else Inr (s\<lparr>s_m := Assert (s_m s) l d\<rparr>))"

section \<open>Literal selection\<close>

text \<open>
  \<^verbatim>\<open>selectLiteral\<close> ranges over the map \<^verbatim>\<open>s.vars\<close>. Go leaves the iteration order of
  a map unspecified, so the order in which \<^verbatim>\<open>range\<close> yields the keys is the parameter
  \<open>ord\<close>: \<open>ord S\<close> lists the keys of the map whose key set is \<open>S\<close>.
\<close>

definition selectLiteral :: "(int set \<Rightarrow> int list) \<Rightarrow> solver \<Rightarrow> error + Literal \<times> solver" where
  "selectLiteral ord s =
     (let tMap = (\<lambda>e. if Lit e < 0 then - Lit e else Lit e) ` set (elems (s_m s))
      in case decideLiterals s of
           r # rest \<Rightarrow>
             if r \<in> tMap then Inl (DecideLiteralTaken r)
             else Inr (r, s\<lparr>decideLiterals := rest\<rparr>)
         | [] \<Rightarrow>
             (case find (\<lambda>k. k \<notin> tMap) (ord (vars s)) of
                Some k \<Rightarrow> Inr (k, s)
              | None \<Rightarrow> Inr (0, s)))"

section \<open>Unit propagation\<close>

text \<open>The two nested \<^verbatim>\<open>for\<close> loops: the first clause, and in it the first literal, that is unit.\<close>

fun firstUnit :: "trail \<Rightarrow> Formula \<Rightarrow> (Clause \<times> Literal) option" where
  "firstUnit t [] = None"
| "firstUnit t (cl # cls) =
     (case find (IsUnit t cl) cl of
        Some l \<Rightarrow> Some (cl, l)
      | None \<Rightarrow> firstUnit t cls)"

definition fvars :: "Formula \<Rightarrow> int set" where
  "fvars fm = abs ` (\<Union>cl \<in> set fm. set cl)"

text \<open>
  The variables of the formula that the trail leaves unassigned: every round of
  \<^verbatim>\<open>unitPropagate\<close> assigns one more of them.
\<close>

lemma ValueLit_Undef_tvars: "ValueLit t l = Undef \<Longrightarrow> \<bar>l\<bar> \<notin> tvars t"
  by (auto simp: ValueLit_def tvars_def Negate_def abs_if split: if_splits)

lemma find_Some_set: "find P xs = Some x \<Longrightarrow> x \<in> set xs \<and> P x"
  by (induction xs) (auto split: if_splits)

lemma firstUnit_Some: "firstUnit t fm = Some (cl, l) \<Longrightarrow> cl \<in> set fm \<and> l \<in> set cl \<and> IsUnit t cl l"
  by (induction fm) (auto split: option.splits dest: find_Some_set)

lemma finite_fvars: "finite (fvars fm)"
  by (simp add: fvars_def)

lemma tvars_Assert: "tvars (Assert t l d) = insert \<bar>l\<bar> (tvars t)"
  by (simp add: tvars_def Assert_def lits_def)

function unitPropagate :: "solver \<Rightarrow> error + solver" where
  "unitPropagate s =
     (case firstUnit (s_m s) (s_f s) of
        None \<Rightarrow> Inr s
      | Some (cl, l) \<Rightarrow>
          (case assertLiteral l False s of
             Inl e \<Rightarrow> Inl e
           | Inr s1 \<Rightarrow>
               (let s2 = s1\<lparr>reasonMap := (reasonMap s1)(l \<mapsto> cl)\<rparr>
                in if IsFormulaFalse (s_m s2) (s_f s2) \<noteq> None then Inr s2
                   else unitPropagate s2)))"
  by pat_completeness auto
termination
proof (relation "measure (\<lambda>s. card (fvars (s_f s) - tvars (s_m s)))")
  show "wf (measure (\<lambda>s. card (fvars (s_f s) - tvars (s_m s))))"
    by simp
next
  fix s :: solver and x2 cl l s1 s2
  assume fu: "firstUnit (s_m s) (s_f s) = Some x2" and x2: "(cl, l) = x2"
    and al: "assertLiteral l False s = Inr s1"
    and s2: "s2 = s1\<lparr>reasonMap := (reasonMap s1)(l \<mapsto> cl)\<rparr>"
  from fu x2 have u: "cl \<in> set (s_f s)" "l \<in> set cl" "IsUnit (s_m s) cl l"
    using firstUnit_Some[of "s_m s" "s_f s" cl l] by auto
  from u(3) have un: "\<bar>l\<bar> \<notin> tvars (s_m s)"
    by (simp add: IsUnit_def ValueLit_Undef_tvars)
  from u(1,2) have inf: "\<bar>l\<bar> \<in> fvars (s_f s)"
    by (auto simp: fvars_def)
  from al have s1: "s1 = s\<lparr>s_m := Assert (s_m s) l False\<rparr>"
    by (auto simp: assertLiteral_def split: if_splits)
  have eq: "fvars (s_f s2) - tvars (s_m s2) = (fvars (s_f s) - tvars (s_m s)) - {\<bar>l\<bar>}"
    by (auto simp: s2 s1 tvars_Assert)
  have mem: "\<bar>l\<bar> \<in> fvars (s_f s) - tvars (s_m s)"
    using un inf by simp
  have fin: "finite (fvars (s_f s) - tvars (s_m s))"
    by (simp add: finite_fvars)
  have "card ((fvars (s_f s) - tvars (s_m s)) - {\<bar>l\<bar>}) < card (fvars (s_f s) - tvars (s_m s))"
    using fin mem by (rule card_Diff1_less)
  then have "card (fvars (s_f s2) - tvars (s_m s2)) < card (fvars (s_f s) - tvars (s_m s))"
    by (simp only: eq)
  then show "(s2, s) \<in> measure (\<lambda>s. card (fvars (s_f s) - tvars (s_m s)))"
    by simp
qed

declare unitPropagate.simps [simp del]

section \<open>Conflict analysis\<close>

text \<open>
  The loop that ends \<^verbatim>\<open>applyConflict\<close> and \<^verbatim>\<open>applyExplain\<close>: it walks the trail from
  its last element down, stores each literal in \<^verbatim>\<open>cL\<close> and stops at the first one whose
  negation is in \<^verbatim>\<open>cH\<close>. The list is the trail's literals, most recent first; the third
  argument is the value \<^verbatim>\<open>cL\<close> holds so far.
\<close>

fun findLast :: "Literal set \<Rightarrow> Literal list \<Rightarrow> Literal \<Rightarrow> Literal" where
  "findLast H [] cur = cur"
| "findLast H (l # ls) cur = (if Negate l \<in> H then l else findLast H ls l)"

definition setLastAsserted :: "solver \<Rightarrow> solver" where
  "setLastAsserted s = s\<lparr>cL := findLast (cH s) (rev (lits (s_m s))) (cL s)\<rparr>"

definition addConflictLiteral :: "Literal \<Rightarrow> solver \<Rightarrow> solver" where
  "addConflictLiteral l s =
     (if l \<notin> cH s then
        (let level = Level (s_m s) (Negate l)
         in if level > 0 then
              (let s1 = s\<lparr>cH := insert l (cH s)\<rparr>
               in if level = CurrentLevel (s_m s) then s1\<lparr>cN := cN s1 + 1\<rparr>
                  else s1\<lparr>cP := insert l (cP s1)\<rparr>)
            else s)
      else s)"

definition applyConflict :: "Clause \<Rightarrow> solver \<Rightarrow> solver" where
  "applyConflict cl s =
     setLastAsserted (fold addConflictLiteral cl (s\<lparr>cH := {}, cP := {}, cN := 0\<rparr>))"

definition removeConflictLiteral :: "Literal \<Rightarrow> solver \<Rightarrow> solver" where
  "removeConflictLiteral l s =
     (let s1 = s\<lparr>cH := cH s - {l}\<rparr>
      in if Level (s_m s1) (Negate l) = CurrentLevel (s_m s1) then s1\<lparr>cN := cN s1 - 1\<rparr>
         else s1\<lparr>cP := cP s1 - {l}\<rparr>)"

text \<open>A key that \<^verbatim>\<open>reasonMap\<close> does not hold reads as the nil clause.\<close>

definition reasonOf :: "solver \<Rightarrow> Literal \<Rightarrow> Clause" where
  "reasonOf s l = (case reasonMap s l of None \<Rightarrow> [] | Some r \<Rightarrow> r)"

definition applyExplain :: "Literal \<Rightarrow> solver \<Rightarrow> solver" where
  "applyExplain lit s =
     (let s1 = removeConflictLiteral (Negate lit) s;
          reason = reasonOf s1 lit
      in setLastAsserted (fold (\<lambda>l s'. if l \<noteq> lit then addConflictLiteral l s' else s') reason s1))"

text \<open>
  The loop \<^verbatim>\<open>for s.cN != 1\<close> of \<^verbatim>\<open>applyExplainUIP\<close> has no bound of its own, so its
  model is partial: \<open>None\<close> is the loop that never ends.
\<close>

partial_function (option) explainLoop :: "solver \<Rightarrow> solver option" where
  "explainLoop s = (if cN s \<noteq> 1 then explainLoop (applyExplain (cL s) s) else Some s)"

declare explainLoop.simps [code]

text \<open>
  \<^verbatim>\<open>buildC\<close> ranges over the map \<^verbatim>\<open>cP\<close>; \<open>ord\<close> is the order in which Go yields its
  keys, as in \<open>selectLiteral\<close>.
\<close>

definition applyExplainUIP :: "(int set \<Rightarrow> int list) \<Rightarrow> solver \<Rightarrow> solver option" where
  "applyExplainUIP ord s =
     (case explainLoop s of
        None \<Rightarrow> None
      | Some s1 \<Rightarrow> Some (s1\<lparr>s_c := ord (cP s1) @ [Negate (cL s1)]\<rparr>))"

section \<open>Backjumping\<close>

definition backjumpLevel :: "(int set \<Rightarrow> int list) \<Rightarrow> solver \<Rightarrow> nat" where
  "backjumpLevel ord s =
     fold (\<lambda>l level. let v = set_m (s_m s) (Negate l) in if v > level then v else level)
       (ord (cP s)) 0"

definition applyBackjump :: "(int set \<Rightarrow> int list) \<Rightarrow> solver \<Rightarrow> error + solver" where
  "applyBackjump ord s =
     (let level = backjumpLevel ord s;
          s1 = s\<lparr>s_m := TrimToLevel (s_m s) level\<rparr>;
          lit = Negate (cL s1)
      in case assertLiteral lit False s1 of
           Inl e \<Rightarrow> Inl e
         | Inr s2 \<Rightarrow> Inr (s2\<lparr>reasonMap := (reasonMap s2)(lit \<mapsto> s_c s2)\<rparr>))"

section \<open>The solve loop\<close>

text \<open>
  One round of the \<^verbatim>\<open>for\<close> loop of \<^verbatim>\<open>Solve\<close>: it returns from \<^verbatim>\<open>Solve\<close>, goes on to
  the next round with a new state, or hangs in \<^verbatim>\<open>applyExplainUIP\<close>. What \<^verbatim>\<open>Solve\<close>
  returns is \<open>Inl\<close> of the panic that stopped the solver, or \<open>Inr\<close> of the boolean and
  the state it leaves.
\<close>

datatype round = Return "error + bool \<times> solver" | Continue solver | Hang

definition solveRound :: "(int set \<Rightarrow> int list) \<Rightarrow> solver \<Rightarrow> round" where
  "solveRound ord s =
     (case unitPropagate s of
        Inl e \<Rightarrow> Return (Inl e)
      | Inr s1 \<Rightarrow>
          (case IsFormulaFalse (s_m s1) (s_f s1) of
             Some conflictC \<Rightarrow>
               (let s2 = applyConflict conflictC s1
                in if DecisionsLen (s_m s2) = 0 then Return (Inr (False, s2))
                   else (case applyExplainUIP ord s2 of
                           None \<Rightarrow> Hang
                         | Some s3 \<Rightarrow>
                             (let s4 = (if length (s_c s3) > 1 then s3\<lparr>s_f := s_f s3 @ [s_c s3]\<rparr>
                                        else s3)
                              in case applyBackjump ord s4 of
                                   Inl e \<Rightarrow> Return (Inl e)
                                 | Inr s5 \<Rightarrow> Continue s5)))
           | None \<Rightarrow>
               if Len (s_m s1) = card (vars s1) then Return (Inr (True, s1))
               else (case selectLiteral ord s1 of
                       Inl e \<Rightarrow> Return (Inl e)
                     | Inr (lit, s2) \<Rightarrow>
                         (case assertLiteral lit True s2 of
                            Inl e \<Rightarrow> Return (Inl e)
                          | Inr s3 \<Rightarrow> Continue s3))))"

text \<open>
  The loop has no bound of its own, so its model is partial. The argument \<open>ord\<close> gives
  the iteration order of Go's maps in each round: \<open>ord 0\<close> in this round, \<open>ord 1\<close> in
  the next, and so on.
\<close>

partial_function (option) solveLoop ::
  "(nat \<Rightarrow> int set \<Rightarrow> int list) \<Rightarrow> solver \<Rightarrow> (error + bool \<times> solver) option" where
  "solveLoop ord s =
     (case solveRound (ord 0) s of
        Return r \<Rightarrow> Some r
      | Hang \<Rightarrow> None
      | Continue s' \<Rightarrow> solveLoop (\<lambda>k. ord (Suc k)) s')"

declare solveLoop.simps [code]

definition Solve ::
  "(nat \<Rightarrow> int set \<Rightarrow> int list) \<Rightarrow> solver \<Rightarrow> (error + bool \<times> solver) option" where
  "Solve ord s =
     (if result s \<noteq> satResultUndef then Some (Inr (result s = satResultSat, s))
      else solveLoop ord s)"

text \<open>
  An iteration order is any enumeration of the keys. Two orders for the examples: keys
  ascending and keys descending.
\<close>

definition enumerates :: "(int set \<Rightarrow> int list) \<Rightarrow> bool" where
  "enumerates ord = (\<forall>S. finite S \<longrightarrow> set (ord S) = S)"

definition ascending :: "int set \<Rightarrow> int list" where
  "ascending S = sorted_list_of_set S"

definition descending :: "int set \<Rightarrow> int list" where
  "descending S = rev (sorted_list_of_set S)"

section \<open>Facts about the trail\<close>

lemma enumerates_ascending: "enumerates ascending"
  by (simp add: enumerates_def ascending_def)

lemma enumerates_descending: "enumerates descending"
  by (simp add: enumerates_def descending_def)

lemma tMap_tvars:
  "(\<lambda>e. if Lit e < 0 then - Lit e else Lit e) ` set (elems t) = tvars t"
proof -
  have "(\<lambda>e. if Lit e < 0 then - Lit e else Lit e) ` set (elems t) = (\<lambda>e. \<bar>Lit e\<bar>) ` set (elems t)"
    by (rule image_cong) (simp_all add: abs_if)
  also have "\<dots> = tvars t"
    by (simp add: tvars_def lits_def image_image)
  finally show ?thesis .
qed

lemma selectLiteral_unfold:
  "selectLiteral ord s =
     (case decideLiterals s of
           r # rest \<Rightarrow>
             if r \<in> tvars (s_m s) then Inl (DecideLiteralTaken r)
             else Inr (r, s\<lparr>decideLiterals := rest\<rparr>)
         | [] \<Rightarrow>
             (case find (\<lambda>k. k \<notin> tvars (s_m s)) (ord (vars s)) of
                Some k \<Rightarrow> Inr (k, s)
              | None \<Rightarrow> Inr (0, s)))"
  unfolding selectLiteral_def tMap_tvars Let_def ..

section \<open>Literal selection: the claims\<close>

text \<open>
  C9, as the code has it. With no override sequence, \<^verbatim>\<open>selectLiteral\<close> returns the
  first variable in the iteration order of the map \<^verbatim>\<open>s.vars\<close> that the trail does not
  assign, as a positive literal (the key itself), and leaves the solver unchanged. Go does
  not fix that order, so the variable need not be the lowest-numbered one. When the trail
  assigns every variable the result is the literal 0.
\<close>

theorem selectLiteral_default:
  assumes "decideLiterals s = []" and "set (ord (vars s)) = vars s"
  shows "\<exists>l. selectLiteral ord s = Inr (l, s) \<and>
           (if vars s \<subseteq> tvars (s_m s) then l = 0
            else l \<in> vars s \<and> l \<notin> tvars (s_m s) \<and>
                 find (\<lambda>k. k \<notin> tvars (s_m s)) (ord (vars s)) = Some l)"
proof (cases "find (\<lambda>k. k \<notin> tvars (s_m s)) (ord (vars s))")
  case None
  then have "vars s \<subseteq> tvars (s_m s)"
    using assms(2) by (auto simp: find_None_iff)
  with None assms(1) show ?thesis
    by (simp add: selectLiteral_unfold)
next
  case (Some k)
  then have "k \<in> vars s" "k \<notin> tvars (s_m s)"
    using assms(2) find_Some_set[OF Some] by auto
  with Some assms(1) show ?thesis
    by (auto simp: selectLiteral_unfold)
qed

text \<open>The theorem at the formula \<open>{[1, 2]}\<close>, the map yielding its keys in descending order.\<close>

theorem selectLiteral_default_witness:
  "decideLiterals (AddFormula [[1, 2]] New) = [] \<and>
   set (descending (vars (AddFormula [[1, 2]] New))) = vars (AddFormula [[1, 2]] New) \<and>
   (\<exists>l. selectLiteral descending (AddFormula [[1, 2]] New) = Inr (l, AddFormula [[1, 2]] New) \<and>
        l \<in> vars (AddFormula [[1, 2]] New) \<and> l \<notin> tvars (s_m (AddFormula [[1, 2]] New)))"
proof -
  have d: "decideLiterals (AddFormula [[1, 2]] New) = []"
    by (simp add: AddFormula_def New_def)
  have v: "vars (AddFormula [[1, 2]] New) = {1, 2}"
    by (auto simp: AddFormula_def New_def)
  have e: "set (descending (vars (AddFormula [[1, 2]] New))) = vars (AddFormula [[1, 2]] New)"
    by (auto simp add: v descending_def)
  have n: "\<not> vars (AddFormula [[1, 2]] New) \<subseteq> tvars (s_m (AddFormula [[1, 2]] New))"
    by (simp add: v) (simp add: AddFormula_def New_def newTrail_def tvars_def lits_def)
  from selectLiteral_default[of "AddFormula [[1, 2]] New" descending, OF d e] n d e show ?thesis
    by auto
qed

text \<open>
  C9, as the spec states it, fails: with the variables 1 and 2 unassigned and the map
  yielding the key 2 first, the literal selected is 2, not the lowest-numbered variable 1.
\<close>

theorem selectLiteral_not_lowest:
  "map_sum id fst (selectLiteral descending (AddFormula [[1, 2]] New)) = Inr 2 \<and>
   decideLiterals (AddFormula [[1, 2]] New) = [] \<and>
   vars (AddFormula [[1, 2]] New) = {1, 2} \<and>
   tvars (s_m (AddFormula [[1, 2]] New)) = {} \<and>
   descending {1, 2} = [2, 1]"
proof -
  have v: "vars (AddFormula [[1, 2]] New) = {1, 2}"
    by (auto simp: AddFormula_def New_def)
  have o: "descending {1, 2} = [2, 1]"
    by (simp add: descending_def)
  have t: "tvars (s_m (AddFormula [[1, 2]] New)) = {}"
    by (simp add: AddFormula_def New_def newTrail_def tvars_def lits_def)
  have d: "decideLiterals (AddFormula [[1, 2]] New) = []"
    by (simp add: AddFormula_def New_def)
  have "selectLiteral descending (AddFormula [[1, 2]] New) = Inr (2, AddFormula [[1, 2]] New)"
    by (simp add: selectLiteral_unfold t d v o)
  with v o t d show ?thesis
    by simp
qed

text \<open>
  C10, at the input where the code breaks it. The trail assigns variable 4 and the next
  override literal is \<open>-4\<close>. \<^verbatim>\<open>selectLiteral\<close> looks the override up in \<^verbatim>\<open>tMap\<close> as it
  is, while the keys of \<^verbatim>\<open>tMap\<close> are absolute values: the lookup misses, nothing panics
  and \<open>-4\<close> is returned.
\<close>

theorem selectLiteral_negative_override:
  "map_sum id fst
     (selectLiteral ascending
        (New\<lparr>decideLiterals := [- 4], vars := {4}, s_f := [[4]],
             s_m := Assert newTrail 4 False\<rparr>)) = Inr (- 4) \<and>
   ValueLit (Assert newTrail 4 False) (- 4) = TriFalse"
  by (simp add: selectLiteral_unfold tvars_def New_def Assert_def newTrail_def ValueLit_def lits_def Negate_def)

text \<open>For an override literal that is not negative the check does what C10 says.\<close>

lemma selectLiteral_positive_override:
  assumes "decideLiterals s = r # rest" and "0 \<le> r" and "r \<in> tvars (s_m s)"
  shows "selectLiteral ord s = Inl (DecideLiteralTaken r)"
  using assms by (simp add: selectLiteral_unfold)

section \<open>What each operation leaves alone\<close>

lemma assertLiteral_Inr:
  "assertLiteral l d s = Inr s' \<longleftrightarrow> ValueLit (s_m s) l = Undef \<and> s' = s\<lparr>s_m := Assert (s_m s) l d\<rparr>"
  by (auto simp: assertLiteral_def)

lemma assertLiteral_Inl:
  "assertLiteral l d s = Inl e \<longleftrightarrow> ValueLit (s_m s) l \<noteq> Undef \<and> e = AssertAssigned l"
  by (auto simp: assertLiteral_def)

lemma addConflictLiteral_frame [simp]:
  "s_m (addConflictLiteral l s) = s_m s"
  "s_f (addConflictLiteral l s) = s_f s"
  "vars (addConflictLiteral l s) = vars s"
  "reasonMap (addConflictLiteral l s) = reasonMap s"
  "result (addConflictLiteral l s) = result s"
  "decideLiterals (addConflictLiteral l s) = decideLiterals s"
  "s_c (addConflictLiteral l s) = s_c s"
  "cL (addConflictLiteral l s) = cL s"
  by (simp_all add: addConflictLiteral_def Let_def)

lemma removeConflictLiteral_frame [simp]:
  "s_m (removeConflictLiteral l s) = s_m s"
  "s_f (removeConflictLiteral l s) = s_f s"
  "vars (removeConflictLiteral l s) = vars s"
  "reasonMap (removeConflictLiteral l s) = reasonMap s"
  "result (removeConflictLiteral l s) = result s"
  "decideLiterals (removeConflictLiteral l s) = decideLiterals s"
  "s_c (removeConflictLiteral l s) = s_c s"
  "cL (removeConflictLiteral l s) = cL s"
  by (simp_all add: removeConflictLiteral_def Let_def)

lemma setLastAsserted_frame [simp]:
  "s_m (setLastAsserted s) = s_m s"
  "s_f (setLastAsserted s) = s_f s"
  "vars (setLastAsserted s) = vars s"
  "reasonMap (setLastAsserted s) = reasonMap s"
  "result (setLastAsserted s) = result s"
  "decideLiterals (setLastAsserted s) = decideLiterals s"
  "s_c (setLastAsserted s) = s_c s"
  "cH (setLastAsserted s) = cH s"
  "cP (setLastAsserted s) = cP s"
  "cN (setLastAsserted s) = cN s"
  by (simp_all add: setLastAsserted_def)

definition sameProblem :: "solver \<Rightarrow> solver \<Rightarrow> bool" where
  "sameProblem s s' \<longleftrightarrow>
     s_m s' = s_m s \<and> s_f s' = s_f s \<and> vars s' = vars s \<and> reasonMap s' = reasonMap s \<and>
     result s' = result s \<and> decideLiterals s' = decideLiterals s \<and> s_c s' = s_c s"

lemma sameProblem_refl [simp]: "sameProblem s s"
  by (simp add: sameProblem_def)

lemma sameProblem_trans: "sameProblem s s' \<Longrightarrow> sameProblem s' s'' \<Longrightarrow> sameProblem s s''"
  by (simp add: sameProblem_def)

lemma fold_add_sameProblem:
  "sameProblem s (fold (\<lambda>l s'. if Q l then addConflictLiteral l s' else s') ls s)"
  by (induction ls arbitrary: s) (auto simp: sameProblem_def)

lemma fold_add_sameProblem':
  "sameProblem s (fold addConflictLiteral ls s)"
  using fold_add_sameProblem[of s "\<lambda>_. True" ls] by simp

lemma applyConflict_same: "sameProblem s (applyConflict cl s)"
proof -
  have "sameProblem s (s\<lparr>cH := {}, cP := {}, cN := 0\<rparr>)"
    by (simp add: sameProblem_def)
  moreover have "sameProblem (s\<lparr>cH := {}, cP := {}, cN := 0\<rparr>)
      (fold addConflictLiteral cl (s\<lparr>cH := {}, cP := {}, cN := 0\<rparr>))"
    by (rule fold_add_sameProblem')
  moreover have "sameProblem (fold addConflictLiteral cl (s\<lparr>cH := {}, cP := {}, cN := 0\<rparr>))
      (applyConflict cl s)"
    by (simp add: applyConflict_def sameProblem_def)
  ultimately show ?thesis
    by (blast intro: sameProblem_trans)
qed

lemma applyExplain_same: "sameProblem s (applyExplain lit s)"
proof -
  have "sameProblem s (removeConflictLiteral (Negate lit) s)"
    by (simp add: sameProblem_def)
  moreover have "sameProblem (removeConflictLiteral (Negate lit) s)
      (fold (\<lambda>l s'. if l \<noteq> lit then addConflictLiteral l s' else s')
         (reasonOf (removeConflictLiteral (Negate lit) s) lit) (removeConflictLiteral (Negate lit) s))"
    by (rule fold_add_sameProblem)
  ultimately show ?thesis
    by (simp add: applyExplain_def Let_def sameProblem_def)
qed

lemma explainLoop_same: "explainLoop s = Some s' \<Longrightarrow> sameProblem s s'"
proof (induction rule: explainLoop.raw_induct[rotated 1, consumes 1])
  case (1 explainLoop s s')
  show ?case
  proof (cases "cN s = 1")
    case True
    with 1(2) show ?thesis by simp
  next
    case False
    with 1(2) have "explainLoop (applyExplain (cL s) s) = Some s'" by simp
    then have "sameProblem (applyExplain (cL s) s) s'" by (rule 1(1))
    with applyExplain_same[of s "cL s"] show ?thesis
      by (blast intro: sameProblem_trans)
  qed
qed


section \<open>Unit propagation: one round and the whole loop\<close>

definition pushUnit :: "Clause \<Rightarrow> Literal \<Rightarrow> solver \<Rightarrow> solver" where
  "pushUnit cl l s = s\<lparr>s_m := Assert (s_m s) l False, reasonMap := (reasonMap s)(l \<mapsto> cl)\<rparr>"

lemma pushUnit_frame [simp]:
  "s_m (pushUnit cl l s) = Assert (s_m s) l False"
  "reasonMap (pushUnit cl l s) = (reasonMap s)(l \<mapsto> cl)"
  "s_f (pushUnit cl l s) = s_f s"
  "vars (pushUnit cl l s) = vars s"
  "result (pushUnit cl l s) = result s"
  "decideLiterals (pushUnit cl l s) = decideLiterals s"
  "s_c (pushUnit cl l s) = s_c s"
  "cH (pushUnit cl l s) = cH s"
  "cP (pushUnit cl l s) = cP s"
  "cL (pushUnit cl l s) = cL s"
  "cN (pushUnit cl l s) = cN s"
  by (simp_all add: pushUnit_def)

lemma unitPropagate_unfold:
  "unitPropagate s =
     (case firstUnit (s_m s) (s_f s) of
        None \<Rightarrow> Inr s
      | Some (cl, l) \<Rightarrow>
          if IsFormulaFalse (s_m (pushUnit cl l s)) (s_f s) \<noteq> None then Inr (pushUnit cl l s)
          else unitPropagate (pushUnit cl l s))"
proof (cases "firstUnit (s_m s) (s_f s)")
  case None
  then show ?thesis
    by (simp add: unitPropagate.simps[of s])
next
  case (Some p)
  obtain cl l where p: "p = (cl, l)"
    by (cases p)
  from Some p have "IsUnit (s_m s) cl l"
    using firstUnit_Some by blast
  then have "ValueLit (s_m s) l = Undef"
    by (simp add: IsUnit_def)
  then have "assertLiteral l False s = Inr (s\<lparr>s_m := Assert (s_m s) l False\<rparr>)"
    by (simp add: assertLiteral_def)
  with Some p show ?thesis
    by (simp add: unitPropagate.simps[of s] pushUnit_def Let_def)
qed

lemma unitPropagate_rule:
  assumes stop: "\<And>s. firstUnit (s_m s) (s_f s) = None \<Longrightarrow> P s s"
    and conflict: "\<And>s cl l. firstUnit (s_m s) (s_f s) = Some (cl, l) \<Longrightarrow>
        IsFormulaFalse (s_m (pushUnit cl l s)) (s_f s) \<noteq> None \<Longrightarrow> P s (pushUnit cl l s)"
    and step: "\<And>s cl l s'. firstUnit (s_m s) (s_f s) = Some (cl, l) \<Longrightarrow>
        IsFormulaFalse (s_m (pushUnit cl l s)) (s_f s) = None \<Longrightarrow>
        unitPropagate (pushUnit cl l s) = Inr s' \<Longrightarrow> P (pushUnit cl l s) s' \<Longrightarrow> P s s'"
  shows "\<exists>s'. unitPropagate s = Inr s' \<and> P s s'"
proof (induction s rule: unitPropagate.induct)
  case (1 s)
  show ?case
  proof (cases "firstUnit (s_m s) (s_f s)")
    case None
    then show ?thesis
      using stop[of s] by (simp add: unitPropagate_unfold[of s])
  next
    case (Some p)
    obtain cl l where p: "p = (cl, l)"
      by (cases p)
    have fu: "firstUnit (s_m s) (s_f s) = Some (cl, l)"
      using Some p by simp
    then have "ValueLit (s_m s) l = Undef"
      using firstUnit_Some[of "s_m s" "s_f s" cl l] by (simp add: IsUnit_def)
    then have al: "assertLiteral l False s = Inr (s\<lparr>s_m := Assert (s_m s) l False\<rparr>)"
      by (simp add: assertLiteral_def)
    have pu: "pushUnit cl l s =
        (s\<lparr>s_m := Assert (s_m s) l False\<rparr>)\<lparr>reasonMap := (reasonMap (s\<lparr>s_m := Assert (s_m s) l False\<rparr>))(l \<mapsto> cl)\<rparr>"
      by (simp add: pushUnit_def)
    show ?thesis
    proof (cases "IsFormulaFalse (s_m (pushUnit cl l s)) (s_f s) = None")
      case False
      with fu show ?thesis
        using conflict[of s cl l] by (simp add: unitPropagate_unfold[of s])
    next
      case True
      then have nf: "\<not> IsFormulaFalse (s_m (pushUnit cl l s)) (s_f (pushUnit cl l s)) \<noteq> None"
        by simp
      from "1.IH"[OF Some p[symmetric] al pu nf]
      obtain s' where s': "unitPropagate (pushUnit cl l s) = Inr s'" "P (pushUnit cl l s) s'"
        by blast
      from step[OF fu True s'] have "P s s'" .
      with fu True s'(1) show ?thesis
        by (simp add: unitPropagate_unfold[of s])
    qed
  qed
qed

text \<open>Unit propagation touches the trail and the reasons, nothing else.\<close>

definition sameButTrail :: "solver \<Rightarrow> solver \<Rightarrow> bool" where
  "sameButTrail s s' \<longleftrightarrow> s' = s\<lparr>s_m := s_m s', reasonMap := reasonMap s'\<rparr>"

lemma unitPropagate_total: "\<exists>s'. unitPropagate s = Inr s' \<and> sameButTrail s s'"
proof (rule unitPropagate_rule)
  show "\<And>s. firstUnit (s_m s) (s_f s) = None \<Longrightarrow> sameButTrail s s"
    by (simp add: sameButTrail_def)
  show "\<And>s cl l. firstUnit (s_m s) (s_f s) = Some (cl, l) \<Longrightarrow>
        IsFormulaFalse (s_m (pushUnit cl l s)) (s_f s) \<noteq> None \<Longrightarrow> sameButTrail s (pushUnit cl l s)"
    by (simp add: sameButTrail_def pushUnit_def)
  show "\<And>s cl l s'. firstUnit (s_m s) (s_f s) = Some (cl, l) \<Longrightarrow>
        IsFormulaFalse (s_m (pushUnit cl l s)) (s_f s) = None \<Longrightarrow>
        unitPropagate (pushUnit cl l s) = Inr s' \<Longrightarrow> sameButTrail (pushUnit cl l s) s' \<Longrightarrow> sameButTrail s s'"
  proof -
    fix s cl l s'
    assume "sameButTrail (pushUnit cl l s) s'"
    then have "s' = (pushUnit cl l s)\<lparr>s_m := s_m s', reasonMap := reasonMap s'\<rparr>"
      by (simp add: sameButTrail_def)
    then have "s' = s\<lparr>s_m := s_m s', reasonMap := reasonMap s'\<rparr>"
      by (simp add: pushUnit_def)
    then show "sameButTrail s s'"
      by (simp add: sameButTrail_def)
  qed
qed

lemma unitPropagate_frame:
  assumes "unitPropagate s = Inr s'"
  shows "s_f s' = s_f s" "vars s' = vars s" "result s' = result s"
    "decideLiterals s' = decideLiterals s" "s_c s' = s_c s" "cH s' = cH s" "cP s' = cP s"
    "cL s' = cL s" "cN s' = cN s"
proof -
  from unitPropagate_total[of s] assms have "sameButTrail s s'"
    by auto
  then have e: "s' = s\<lparr>s_m := s_m s', reasonMap := reasonMap s'\<rparr>"
    by (simp add: sameButTrail_def)
  show "s_f s' = s_f s" by (subst e) simp
  show "vars s' = vars s" by (subst e) simp
  show "result s' = result s" by (subst e) simp
  show "decideLiterals s' = decideLiterals s" by (subst e) simp
  show "s_c s' = s_c s" by (subst e) simp
  show "cH s' = cH s" by (subst e) simp
  show "cP s' = cP s" by (subst e) simp
  show "cL s' = cL s" by (subst e) simp
  show "cN s' = cN s" by (subst e) simp
qed


section \<open>Backjump and the rounds of the solve loop\<close>

lemma applyBackjump_Inr:
  "applyBackjump ord s = Inr s' \<longleftrightarrow>
     ValueLit (TrimToLevel (s_m s) (backjumpLevel ord s)) (Negate (cL s)) = Undef \<and>
     s' = s\<lparr>s_m := Assert (TrimToLevel (s_m s) (backjumpLevel ord s)) (Negate (cL s)) False,
            reasonMap := (reasonMap s)(Negate (cL s) \<mapsto> s_c s)\<rparr>"
  by (auto simp: applyBackjump_def Let_def assertLiteral_def)

lemma applyExplainUIP_Some:
  "applyExplainUIP ord s = Some s' \<longleftrightarrow>
     (\<exists>s1. explainLoop s = Some s1 \<and> s' = s1\<lparr>s_c := ord (cP s1) @ [Negate (cL s1)]\<rparr>)"
  by (auto simp: applyExplainUIP_def split: option.splits)

lemma sameProblem_fields:
  assumes "sameProblem s s'"
  shows "s_m s' = s_m s" "s_f s' = s_f s" "vars s' = vars s" "reasonMap s' = reasonMap s"
    "result s' = result s" "decideLiterals s' = decideLiterals s" "s_c s' = s_c s"
  using assms by (simp_all add: sameProblem_def)

lemma applyExplainUIP_frame:
  assumes "applyExplainUIP ord s = Some s'"
  shows "s_m s' = s_m s" "s_f s' = s_f s" "vars s' = vars s" "reasonMap s' = reasonMap s"
    "result s' = result s" "decideLiterals s' = decideLiterals s"
proof -
  from assms obtain s1 where l: "explainLoop s = Some s1"
    and e: "s' = s1\<lparr>s_c := ord (cP s1) @ [Negate (cL s1)]\<rparr>"
    by (auto simp: applyExplainUIP_Some)
  note f = sameProblem_fields[OF explainLoop_same[OF l]]
  show "s_m s' = s_m s" by (simp add: e f)
  show "s_f s' = s_f s" by (simp add: e f)
  show "vars s' = vars s" by (simp add: e f)
  show "reasonMap s' = reasonMap s" by (simp add: e f)
  show "result s' = result s" by (simp add: e f)
  show "decideLiterals s' = decideLiterals s" by (simp add: e f)
qed

text \<open>The three ways a round ends, read off \<open>solveRound\<close>.\<close>

lemma solveRound_cases:
  obtains
    (conflict0) s1 cc where "unitPropagate s = Inr s1"
      "IsFormulaFalse (s_m s1) (s_f s1) = Some cc" "DecisionsLen (s_m s1) = 0"
      "solveRound ord s = Return (Inr (False, applyConflict cc s1))"
  | (hang) s1 cc where "unitPropagate s = Inr s1"
      "IsFormulaFalse (s_m s1) (s_f s1) = Some cc" "DecisionsLen (s_m s1) \<noteq> 0"
      "applyExplainUIP ord (applyConflict cc s1) = None" "solveRound ord s = Hang"
  | (learn) s1 cc s3 where "unitPropagate s = Inr s1"
      "IsFormulaFalse (s_m s1) (s_f s1) = Some cc" "DecisionsLen (s_m s1) \<noteq> 0"
      "applyExplainUIP ord (applyConflict cc s1) = Some s3"
      "solveRound ord s =
         (case applyBackjump ord (if 1 < length (s_c s3) then s3\<lparr>s_f := s_f s3 @ [s_c s3]\<rparr> else s3) of
            Inl e \<Rightarrow> Return (Inl e) | Inr s5 \<Rightarrow> Continue s5)"
  | (sat) s1 where "unitPropagate s = Inr s1"
      "IsFormulaFalse (s_m s1) (s_f s1) = None" "Len (s_m s1) = card (vars s1)"
      "solveRound ord s = Return (Inr (True, s1))"
  | (decide) s1 where "unitPropagate s = Inr s1"
      "IsFormulaFalse (s_m s1) (s_f s1) = None" "Len (s_m s1) \<noteq> card (vars s1)"
      "solveRound ord s =
         (case selectLiteral ord s1 of
            Inl e \<Rightarrow> Return (Inl e)
          | Inr (lit, s2) \<Rightarrow>
              (case assertLiteral lit True s2 of
                 Inl e \<Rightarrow> Return (Inl e) | Inr s3 \<Rightarrow> Continue s3))"
proof -
  obtain s1 where up: "unitPropagate s = Inr s1"
    using unitPropagate_total[of s] by blast
  show thesis
  proof (cases "IsFormulaFalse (s_m s1) (s_f s1)")
    case None
    show thesis
    proof (cases "Len (s_m s1) = card (vars s1)")
      case True
      with up None show thesis
        by (intro sat[of s1]) (simp_all add: solveRound_def)
    next
      case False
      with up None show thesis
        by (intro decide[of s1]) (simp_all add: solveRound_def)
    qed
  next
    case (Some cc)
    have m: "s_m (applyConflict cc s1) = s_m s1"
      using applyConflict_same[of s1 cc] by (simp add: sameProblem_def)
    show thesis
    proof (cases "DecisionsLen (s_m s1) = 0")
      case True
      with up Some m show thesis
        by (intro conflict0[of s1 cc]) (simp_all add: solveRound_def Let_def)
    next
      case False
      show thesis
      proof (cases "applyExplainUIP ord (applyConflict cc s1)")
        case None
        with up Some m False show thesis
          by (intro hang[of s1 cc]) (simp_all add: solveRound_def Let_def)
      next
        case (Some s3)
        with up \<open>IsFormulaFalse (s_m s1) (s_f s1) = Some cc\<close> m False show thesis
          by (intro learn[of s1 cc s3]) (simp_all add: solveRound_def Let_def)
      qed
    qed
  qed
qed


text \<open>
  What a round, and so the whole loop, does to the problem: the variables and the stored
  result stay, and the formula gets clauses of two or more literals appended.
\<close>

definition grownFrom :: "solver \<Rightarrow> solver \<Rightarrow> bool" where
  "grownFrom s s' \<longleftrightarrow>
     vars s' = vars s \<and> result s' = result s \<and>
     (\<exists>ls. s_f s' = s_f s @ ls \<and> list_all (\<lambda>cl. 1 < length cl) ls)"

lemma grownFrom_refl: "grownFrom s s"
  by (simp add: grownFrom_def)

lemma grownFrom_trans: "grownFrom s s' \<Longrightarrow> grownFrom s' s'' \<Longrightarrow> grownFrom s s''"
  by (auto simp: grownFrom_def)

lemma grownFrom_same:
  "vars s' = vars s \<Longrightarrow> result s' = result s \<Longrightarrow> s_f s' = s_f s \<Longrightarrow> grownFrom s s'"
  by (simp add: grownFrom_def)

lemma selectLiteral_frame:
  assumes "selectLiteral ord s = Inr (l, s')"
  shows "s_m s' = s_m s" "s_f s' = s_f s" "vars s' = vars s" "result s' = result s"
    "reasonMap s' = reasonMap s"
  using assms by (auto simp: selectLiteral_unfold split: list.splits if_splits option.splits)

lemma solveRound_grows:
  "solveRound ord s = Continue s' \<Longrightarrow> grownFrom s s'"
  "solveRound ord s = Return (Inr (b, s')) \<Longrightarrow> grownFrom s s'"
proof -
  have "(solveRound ord s = Continue s' \<longrightarrow> grownFrom s s') \<and>
        (solveRound ord s = Return (Inr (b, s')) \<longrightarrow> grownFrom s s')"
  proof (cases ord s rule: solveRound_cases)
    case (conflict0 s1 cc)
    note f = unitPropagate_frame[OF conflict0(1)] sameProblem_fields[OF applyConflict_same[of s1 cc]]
    show ?thesis
      using f by (auto simp: conflict0(4) grownFrom_def)
  next
    case (hang s1 cc)
    then show ?thesis by simp
  next
    case (learn s1 cc s3)
    note f = unitPropagate_frame[OF learn(1)] sameProblem_fields[OF applyConflict_same[of s1 cc]]
      applyExplainUIP_frame[OF learn(4)]
    show ?thesis
      using f by (auto simp: learn(5) grownFrom_def applyBackjump_Inr split: sum.splits)
  next
    case (sat s1)
    note f = unitPropagate_frame[OF sat(1)]
    show ?thesis
      using f by (auto simp: sat(4) grownFrom_def)
  next
    case (decide s1)
    note f = unitPropagate_frame[OF decide(1)]
    show ?thesis
      using f by (auto simp: decide(4) assertLiteral_Inr selectLiteral_frame grownFrom_def
          split: sum.splits prod.splits)
  qed
  then show "solveRound ord s = Continue s' \<Longrightarrow> grownFrom s s'"
    "solveRound ord s = Return (Inr (b, s')) \<Longrightarrow> grownFrom s s'"
    by blast+
qed

lemma solveLoop_grows:
  "solveLoop ord s = Some r \<Longrightarrow> r = Inr (b, s') \<Longrightarrow> grownFrom s s'"
proof (induction arbitrary: b s' rule: solveLoop.raw_induct[rotated 1, consumes 1])
  case (1 solveLoop ord s r)
  show ?case
  proof (cases "solveRound (ord 0) s")
    case (Return x)
    with 1(2,3) have "solveRound (ord 0) s = Return (Inr (b, s'))" by simp
    then show ?thesis by (rule solveRound_grows(2))
  next
    case (Continue t)
    with 1(2) have "solveLoop (\<lambda>k. ord (Suc k)) t = Some r" by simp
    from 1(1)[OF this 1(3)] solveRound_grows(1)[OF Continue] show ?thesis
      by (blast intro: grownFrom_trans)
  next
    case Hang
    with 1(2) show ?thesis by simp
  qed
qed


section \<open>Result caching: the claim\<close>

lemma Solve_keeps_result:
  assumes "Solve ord s = Some (Inr (b, s'))"
  shows "result s' = result s"
proof (cases "result s = satResultUndef")
  case True
  with assms have "solveLoop ord s = Some (Inr (b, s'))"
    by (simp add: Solve_def)
  from solveLoop_grows[OF this refl] show ?thesis
    by (simp add: grownFrom_def)
next
  case False
  with assms show ?thesis
    by (simp add: Solve_def)
qed

text \<open>
  C1, at the input where the code breaks it. \<^verbatim>\<open>Solve\<close> tests \<^verbatim>\<open>s.result\<close> on entry but
  no path through it ever assigns the field: on the formula \<open>{[4]}\<close> the first call
  returns true and leaves \<^verbatim>\<open>s.result\<close> at \<^verbatim>\<open>satResultUndef\<close>, so a second call runs the
  loop again.
\<close>

theorem Solve_result_never_stored:
  "\<exists>s'. Solve (\<lambda>k. ascending) (AddFormula [[4]] New) = Some (Inr (True, s')) \<and>
        result s' = satResultUndef \<and>
        Solve (\<lambda>k. ascending) s' = solveLoop (\<lambda>k. ascending) s'"
proof -
  have ev: "map_option (map_sum id fst) (Solve (\<lambda>k. ascending) (AddFormula [[4]] New)) = Some (Inr True)"
    by code_simp
  then obtain s' where s': "Solve (\<lambda>k. ascending) (AddFormula [[4]] New) = Some (Inr (True, s'))"
    by (cases "Solve (\<lambda>k. ascending) (AddFormula [[4]] New)") (auto simp: map_sum_def split: sum.splits)
  have "result (AddFormula [[4]] New) = satResultUndef"
    by (simp add: AddFormula_def New_def)
  with Solve_keeps_result[OF s'] have r: "result s' = satResultUndef"
    by simp
  then have "Solve (\<lambda>k. ascending) s' = solveLoop (\<lambda>k. ascending) s'"
    by (simp add: Solve_def)
  with s' r show ?thesis
    by blast
qed

section \<open>The conflict branch of a round: the claim\<close>

lemma solveLoop_Return: "solveRound (ord 0) s = Return r \<Longrightarrow> solveLoop ord s = Some r"
  by (subst solveLoop.simps) simp

lemma solveLoop_Hang: "solveRound (ord 0) s = Hang \<Longrightarrow> solveLoop ord s = None"
  by (subst solveLoop.simps) simp

lemma solveLoop_Continue:
  "solveRound (ord 0) s = Continue s' \<Longrightarrow> solveLoop ord s = solveLoop (\<lambda>k. ord (Suc k)) s'"
  by (subst solveLoop.simps) simp

text \<open>
  C7. The solver has no stored result, unit propagation has ended in \<open>s1\<close> and the
  trail falsifies the clause \<open>cc\<close>. With no decision level open, \<^verbatim>\<open>Solve\<close> returns false,
  the trail and the formula being those of \<open>s1\<close>: nothing is undone. Otherwise conflict
  analysis runs; if it ends, in \<open>s3\<close>, the learned clause \<open>s_c s3\<close> is appended to
  the formula exactly when it has more than one literal, the backjump trims the trail and
  asserts the negation of \<open>cL\<close>, and the loop goes on from the state after the backjump,
  whose first action is unit propagation.
\<close>

theorem Solve_conflict_round:
  assumes "result s = satResultUndef" and "unitPropagate s = Inr s1"
    and "IsFormulaFalse (s_m s1) (s_f s1) = Some cc"
  shows "if DecisionsLen (s_m s1) = 0
         then Solve ord s = Some (Inr (False, applyConflict cc s1)) \<and>
              s_m (applyConflict cc s1) = s_m s1 \<and> s_f (applyConflict cc s1) = s_f s1
         else (case applyExplainUIP (ord 0) (applyConflict cc s1) of
                 None \<Rightarrow> Solve ord s = None
               | Some s3 \<Rightarrow>
                   (case applyBackjump (ord 0)
                           (if 1 < length (s_c s3) then s3\<lparr>s_f := s_f s1 @ [s_c s3]\<rparr> else s3) of
                      Inl e \<Rightarrow> Solve ord s = Some (Inl e)
                    | Inr s5 \<Rightarrow>
                        Solve ord s = solveLoop (\<lambda>k. ord (Suc k)) s5 \<and>
                        s_f s5 = (if 1 < length (s_c s3) then s_f s1 @ [s_c s3] else s_f s1) \<and>
                        s_m s5 = Assert (TrimToLevel (s_m s1) (backjumpLevel (ord 0) s3))
                                   (Negate (cL s3)) False))"
proof -
  have S: "Solve ord s = solveLoop ord s"
    using assms(1) by (simp add: Solve_def)
  note ac = sameProblem_fields[OF applyConflict_same[of s1 cc]]
  show ?thesis
  proof (cases "DecisionsLen (s_m s1) = 0")
    case True
    then have "solveRound (ord 0) s = Return (Inr (False, applyConflict cc s1))"
      using assms(2,3) ac(1) by (simp add: solveRound_def Let_def)
    from solveLoop_Return[of ord, OF this] True ac S show ?thesis
      by simp
  next
    case False
    show ?thesis
    proof (cases "applyExplainUIP (ord 0) (applyConflict cc s1)")
      case None
      then have "solveRound (ord 0) s = Hang"
        using assms(2,3) ac(1) False by (simp add: solveRound_def Let_def)
      from solveLoop_Hang[of ord, OF this] None False S show ?thesis
        by simp
    next
      case (Some s3)
      note ex = applyExplainUIP_frame[OF Some]
      have f3: "s_f s3 = s_f s1" and m3: "s_m s3 = s_m s1"
        using ex ac by simp_all
      let ?s4 = "if 1 < length (s_c s3) then s3\<lparr>s_f := s_f s1 @ [s_c s3]\<rparr> else s3"
      have r: "solveRound (ord 0) s =
          (case applyBackjump (ord 0) ?s4 of Inl e \<Rightarrow> Return (Inl e) | Inr s5 \<Rightarrow> Continue s5)"
        using assms(2,3) ac(1) False Some f3 by (simp add: solveRound_def Let_def)
      show ?thesis
      proof (cases "applyBackjump (ord 0) ?s4")
        case (Inl e)
        with r have "solveRound (ord 0) s = Return (Inl e)" by simp
        from solveLoop_Return[of ord, OF this] Inl Some False S show ?thesis
          by simp
      next
        case (Inr s5)
        with r have c: "solveRound (ord 0) s = Continue s5" by simp
        from Inr have e5: "s5 = ?s4\<lparr>s_m := Assert (TrimToLevel (s_m ?s4) (backjumpLevel (ord 0) ?s4))
              (Negate (cL ?s4)) False, reasonMap := (reasonMap ?s4)(Negate (cL ?s4) \<mapsto> s_c ?s4)\<rparr>"
          by (simp only: applyBackjump_Inr)
        have "s_f s5 = (if 1 < length (s_c s3) then s_f s1 @ [s_c s3] else s_f s1)"
          by (subst e5) (simp add: f3)
        moreover have "s_m s5 = Assert (TrimToLevel (s_m s1) (backjumpLevel (ord 0) s3)) (Negate (cL s3)) False"
          by (subst e5) (simp add: m3 backjumpLevel_def)
        ultimately show ?thesis
          using solveLoop_Continue[of ord, OF c] Inr Some False S by simp
      qed
    qed
  qed
qed


text \<open>
  The theorem at two inputs. On \<open>{[4], [6], [-4, -6]}\<close> propagation asserts 4 and 6 at
  level 0 and the third clause is falsified: \<^verbatim>\<open>Solve\<close> returns false. On
  \<open>{[1, 2], [1, -2], [-1, 2], [-1, -2]}\<close> with 1 decided, propagation asserts 2 and the
  fourth clause is falsified at level 1: the learned clause is \<open>[-1]\<close>, the formula is
  left as it is, and the trail after the backjump holds \<open>-1\<close> alone.
\<close>

theorem Solve_conflict_round_witness:
  "(result (AddFormula [[4], [6], [- 4, - 6]] New) = satResultUndef \<and>
    unitPropagate (AddFormula [[4], [6], [- 4, - 6]] New) =
      Inr (projr (unitPropagate (AddFormula [[4], [6], [- 4, - 6]] New))) \<and>
    IsFormulaFalse (s_m (projr (unitPropagate (AddFormula [[4], [6], [- 4, - 6]] New))))
      (s_f (projr (unitPropagate (AddFormula [[4], [6], [- 4, - 6]] New)))) = Some [- 4, - 6] \<and>
    Solve (\<lambda>k. ascending) (AddFormula [[4], [6], [- 4, - 6]] New) =
      Some (Inr (False, applyConflict [- 4, - 6]
        (projr (unitPropagate (AddFormula [[4], [6], [- 4, - 6]] New)))))) \<and>
   (\<exists>s s1 s3 s5.
      s = (AddFormula [[1, 2], [1, - 2], [- 1, 2], [- 1, - 2]] New)\<lparr>s_m := Assert newTrail 1 True\<rparr> \<and>
      result s = satResultUndef \<and> unitPropagate s = Inr s1 \<and>
      IsFormulaFalse (s_m s1) (s_f s1) = Some [- 1, - 2] \<and> DecisionsLen (s_m s1) = 1 \<and>
      applyExplainUIP ascending (applyConflict [- 1, - 2] s1) = Some s3 \<and> s_c s3 = [- 1] \<and>
      applyBackjump ascending s3 = Inr s5 \<and>
      Solve (\<lambda>k. ascending) s = solveLoop (\<lambda>k. ascending) s5 \<and>
      s_f s5 = s_f s1 \<and> elems (s_m s5) = [\<lparr>Lit = - 1, Decision = False\<rparr>])"
proof -
  define a where "a = AddFormula [[4], [6], [- 4, - 6]] New"
  define a1 where "a1 = projr (unitPropagate a)"
  have a1: "result a = satResultUndef"
    by (simp add: a_def AddFormula_def New_def)
  have a2: "unitPropagate a = Inr a1"
    using unitPropagate_total[of a] by (auto simp: a1_def)
  have a3: "IsFormulaFalse (s_m a1) (s_f a1) = Some [- 4, - 6]"
    unfolding a1_def a_def by code_simp
  have a4: "DecisionsLen (s_m a1) = 0"
    unfolding a1_def a_def by code_simp
  have A: "Solve (\<lambda>k. ascending) a = Some (Inr (False, applyConflict [- 4, - 6] a1))"
    using Solve_conflict_round[of a a1 "[- 4, - 6]" "\<lambda>k. ascending", OF a1 a2 a3] a4 by simp
  define b where "b = (AddFormula [[1, 2], [1, - 2], [- 1, 2], [- 1, - 2]] New)\<lparr>s_m := Assert newTrail 1 True\<rparr>"
  define b1 where "b1 = projr (unitPropagate b)"
  define b3 where "b3 = the (applyExplainUIP ascending (applyConflict [- 1, - 2] b1))"
  define b5 where "b5 = projr (applyBackjump ascending b3)"
  have b1: "result b = satResultUndef"
    by (simp add: b_def AddFormula_def New_def)
  have b2: "unitPropagate b = Inr b1"
    using unitPropagate_total[of b] by (auto simp: b1_def)
  have b3: "IsFormulaFalse (s_m b1) (s_f b1) = Some [- 1, - 2]"
    unfolding b1_def b_def by code_simp
  have b4: "DecisionsLen (s_m b1) = 1"
    unfolding b1_def b_def by code_simp
  have "case applyExplainUIP ascending (applyConflict [- 1, - 2] b1) of None \<Rightarrow> False | Some _ \<Rightarrow> True"
    unfolding b1_def b_def by code_simp
  then have b5: "applyExplainUIP ascending (applyConflict [- 1, - 2] b1) = Some b3"
    by (auto simp: b3_def split: option.splits)
  have b6: "s_c b3 = [- 1]"
    unfolding b3_def b1_def b_def by code_simp
  have "case applyBackjump ascending b3 of Inl _ \<Rightarrow> False | Inr _ \<Rightarrow> True"
    unfolding b3_def b1_def b_def by code_simp
  then have b7: "applyBackjump ascending b3 = Inr b5"
    by (auto simp: b5_def split: sum.splits)
  have b8: "elems (s_m b5) = [\<lparr>Lit = - 1, Decision = False\<rparr>]"
    unfolding b5_def b3_def b1_def b_def by code_simp
  have B: "Solve (\<lambda>k. ascending) b = solveLoop (\<lambda>k. ascending) b5 \<and> s_f b5 = s_f b1"
    using Solve_conflict_round[of b b1 "[- 1, - 2]" "\<lambda>k. ascending", OF b1 b2 b3] b4 b5 b6 b7
    by simp
  have "\<exists>s s1 s3 s5.
      s = (AddFormula [[1, 2], [1, - 2], [- 1, 2], [- 1, - 2]] New)\<lparr>s_m := Assert newTrail 1 True\<rparr> \<and>
      result s = satResultUndef \<and> unitPropagate s = Inr s1 \<and>
      IsFormulaFalse (s_m s1) (s_f s1) = Some [- 1, - 2] \<and> DecisionsLen (s_m s1) = 1 \<and>
      applyExplainUIP ascending (applyConflict [- 1, - 2] s1) = Some s3 \<and> s_c s3 = [- 1] \<and>
      applyBackjump ascending s3 = Inr s5 \<and>
      Solve (\<lambda>k. ascending) s = solveLoop (\<lambda>k. ascending) s5 \<and>
      s_f s5 = s_f s1 \<and> elems (s_m s5) = [\<lparr>Lit = - 1, Decision = False\<rparr>]"
    using b_def b1 b2 b3 b4 b5 b6 b7 b8 B by blast
  with a1 a2 a3 A show ?thesis
    unfolding a1_def a_def by blast
qed

section \<open>Levels of the trail\<close>

lemma trimElems_prefix: "\<exists>rest. es = trimElems k es @ rest"
  by (induction es arbitrary: k) (auto split: nat.splits)

lemma decisions_trimElems:
  "length (filter Decision (trimElems k es)) = min k (length (filter Decision es))"
  by (induction es arbitrary: k) (auto split: nat.splits)

lemma trimElems_id: "length (filter Decision es) \<le> k \<Longrightarrow> trimElems k es = es"
  by (induction es arbitrary: k) (auto split: nat.splits)

lemma DecisionsLen_TrimToLevel:
  "DecisionsLen (TrimToLevel t k) = min k (DecisionsLen t)"
  by (simp add: DecisionsLen_def TrimToLevel_def decisions_trimElems)

lemma DecisionsLen_Assert:
  "DecisionsLen (Assert t l d) = (if d then Suc (DecisionsLen t) else DecisionsLen t)"
  by (simp add: DecisionsLen_def Assert_def)

lemma enumerates_set: "enumerates ord \<Longrightarrow> finite S \<Longrightarrow> set (ord S) = S"
  by (simp add: enumerates_def)

lemma enumerates_empty: "enumerates ord \<Longrightarrow> ord {} = []"
  using enumerates_set[of ord "{}"] by simp

section \<open>The formula only grows: the claim\<close>

text \<open>
  The clauses this run learns. \<^verbatim>\<open>learnedInRound\<close> is the clause that conflict analysis
  builds in the round that starts in state \<open>s\<close>: the \<^verbatim>\<open>s.c\<close> that \<^verbatim>\<open>applyExplainUIP\<close>
  leaves when the round's unit propagation ends in a conflict with a decision level open,
  and nothing in a round without such a conflict. \<^verbatim>\<open>learnedClauses\<close> follows the loop of
  \<^verbatim>\<open>Solve\<close> from \<open>s\<close>, round by round with the orders of the run, and lists what each
  round learned, in the order of the rounds.
\<close>

definition learnedInRound :: "(int set \<Rightarrow> int list) \<Rightarrow> solver \<Rightarrow> Clause list" where
  "learnedInRound ord s =
     (case unitPropagate s of
        Inl e \<Rightarrow> []
      | Inr s1 \<Rightarrow>
          (case IsFormulaFalse (s_m s1) (s_f s1) of
             None \<Rightarrow> []
           | Some conflictC \<Rightarrow>
               if DecisionsLen (s_m s1) = 0 then []
               else (case applyExplainUIP ord (applyConflict conflictC s1) of
                       None \<Rightarrow> []
                     | Some s3 \<Rightarrow> [s_c s3])))"

partial_function (option) learnedClauses ::
  "(nat \<Rightarrow> int set \<Rightarrow> int list) \<Rightarrow> solver \<Rightarrow> Clause list option" where
  "learnedClauses ord s =
     (case solveRound (ord 0) s of
        Return r \<Rightarrow> Some []
      | Hang \<Rightarrow> None
      | Continue s' \<Rightarrow>
          Option.bind (learnedClauses (\<lambda>k. ord (Suc k)) s')
            (\<lambda>cs. Some (learnedInRound (ord 0) s @ cs)))"

declare learnedClauses.simps [code]

lemma solveRound_learns:
  assumes "solveRound ord s = Continue s' \<or> solveRound ord s = Return (Inr (b, s'))"
  shows "s_f s' = s_f s @ filter (\<lambda>cl. 1 < length cl) (learnedInRound ord s)"
proof (cases ord s rule: solveRound_cases)
  case (conflict0 s1 cc)
  note f = unitPropagate_frame[OF conflict0(1)] sameProblem_fields[OF applyConflict_same[of s1 cc]]
  have l: "learnedInRound ord s = []"
    by (simp add: learnedInRound_def conflict0(1-3))
  show ?thesis
    using f assms by (auto simp: conflict0(4) l)
next
  case (hang s1 cc)
  with assms show ?thesis by simp
next
  case (learn s1 cc s3)
  note f = unitPropagate_frame[OF learn(1)] sameProblem_fields[OF applyConflict_same[of s1 cc]]
    applyExplainUIP_frame[OF learn(4)]
  have l: "learnedInRound ord s = [s_c s3]"
    by (simp add: learnedInRound_def learn(1-4))
  show ?thesis
    using f assms by (auto simp: learn(5) l applyBackjump_Inr split: sum.splits)
next
  case (sat s1)
  note f = unitPropagate_frame[OF sat(1)]
  have l: "learnedInRound ord s = []"
    by (simp add: learnedInRound_def sat(1-2))
  show ?thesis
    using f assms by (auto simp: sat(4) l)
next
  case (decide s1)
  note f = unitPropagate_frame[OF decide(1)]
  have l: "learnedInRound ord s = []"
    by (simp add: learnedInRound_def decide(1-2))
  show ?thesis
    using f assms by (auto simp: decide(4) l assertLiteral_Inr selectLiteral_frame
        split: sum.splits prod.splits)
qed

lemma solveLoop_learns:
  "solveLoop ord s = Some r \<Longrightarrow> r = Inr (b, s') \<Longrightarrow>
   \<exists>cs. learnedClauses ord s = Some cs \<and> s_f s' = s_f s @ filter (\<lambda>cl. 1 < length cl) cs"
proof (induction arbitrary: b s' rule: solveLoop.raw_induct[rotated 1, consumes 1])
  case (1 solveLoop ord s r)
  show ?case
  proof (cases "solveRound (ord 0) s")
    case (Return x)
    with 1(2,3) have r: "solveRound (ord 0) s = Return (Inr (b, s'))" by simp
    then have "s_f s' = s_f s @ filter (\<lambda>cl. 1 < length cl) (learnedInRound (ord 0) s)"
      by (intro solveRound_learns) simp
    moreover have "learnedInRound (ord 0) s = []"
      using r by (cases "ord 0" s rule: solveRound_cases)
        (auto simp: learnedInRound_def split: sum.splits prod.splits)
    moreover have "learnedClauses ord s = Some []"
      using r by (subst learnedClauses.simps) simp
    ultimately show ?thesis by simp
  next
    case (Continue t)
    with 1(2) have "solveLoop (\<lambda>k. ord (Suc k)) t = Some r" by simp
    from 1(1)[OF this 1(3)] obtain cs where
      cs: "learnedClauses (\<lambda>k. ord (Suc k)) t = Some cs"
        "s_f s' = s_f t @ filter (\<lambda>cl. 1 < length cl) cs"
      by blast
    have t: "s_f t = s_f s @ filter (\<lambda>cl. 1 < length cl) (learnedInRound (ord 0) s)"
      using Continue by (intro solveRound_learns) simp
    have "learnedClauses ord s = Some (learnedInRound (ord 0) s @ cs)"
      using Continue cs(1) by (subst learnedClauses.simps) simp
    with cs(2) t show ?thesis by simp
  next
    case Hang
    with 1(2) show ?thesis by simp
  qed
qed

text \<open>
  C8. Whatever \<^verbatim>\<open>Solve\<close>'s loop returns, the formula it leaves is the formula it started
  from followed by the clauses that the conflict analyses of this very run learned, in the
  order of the rounds, those of one literal left out: the formula grows only by appending
  learned clauses, nothing is removed or reordered, and a learned clause of one literal is
  never inserted. When conflict analysis ends with \<^verbatim>\<open>cP\<close> empty, the learned clause is the
  single literal, the negation of \<^verbatim>\<open>cL\<close>; the backjump level is 0, and after the backjump
  no decision level is open, the formula is unchanged and the clause is recorded as the
  reason of the asserted literal.
\<close>

theorem formula_only_grows:
  assumes "enumerates ord1"
  shows "(solveLoop ord s = Some (Inr (b, s')) \<longrightarrow>
            (\<exists>cs. learnedClauses ord s = Some cs \<and>
                  s_f s' = s_f s @ filter (\<lambda>cl. 1 < length cl) cs)) \<and>
         (applyExplainUIP ord1 t = Some t3 \<and> cP t3 = {} \<longrightarrow>
            s_c t3 = [Negate (cL t3)] \<and> backjumpLevel ord1 t3 = 0 \<and>
            (\<forall>t5. applyBackjump ord1 t3 = Inr t5 \<longrightarrow>
                   CurrentLevel (s_m t5) = 0 \<and> s_f t5 = s_f t3 \<and>
                   reasonMap t5 (Negate (cL t3)) = Some [Negate (cL t3)]))"
proof (intro conjI impI)
  assume "solveLoop ord s = Some (Inr (b, s'))"
  then show "\<exists>cs. learnedClauses ord s = Some cs \<and>
      s_f s' = s_f s @ filter (\<lambda>cl. 1 < length cl) cs"
    by (rule solveLoop_learns) simp
next
  assume a: "applyExplainUIP ord1 t = Some t3 \<and> cP t3 = {}"
  then obtain t1 where "t3 = t1\<lparr>s_c := ord1 (cP t1) @ [Negate (cL t1)]\<rparr>"
    by (auto simp: applyExplainUIP_Some)
  with a enumerates_empty[OF assms] show c: "s_c t3 = [Negate (cL t3)]"
    by simp
  from a enumerates_empty[OF assms] show l: "backjumpLevel ord1 t3 = 0"
    by (simp add: backjumpLevel_def)
  show "\<forall>t5. applyBackjump ord1 t3 = Inr t5 \<longrightarrow>
          CurrentLevel (s_m t5) = 0 \<and> s_f t5 = s_f t3 \<and>
          reasonMap t5 (Negate (cL t3)) = Some [Negate (cL t3)]"
    by (auto simp: applyBackjump_Inr l c CurrentLevel_def DecisionsLen_Assert DecisionsLen_TrimToLevel)
qed


text \<open>
  The theorem at three inputs. On \<open>{[-1, -2, 3], [-1, -2, -3]}\<close>, keys ascending, the
  solver decides 1 and 2, learns \<open>[-1, -2]\<close> and returns true with that clause appended.
  On \<open>{[1, 2], [1, -2], [-1, 2], [-1, -2]}\<close> the run learns the single clause \<open>[-1]\<close> and
  returns false with the formula as it was. On the same formula with 1 decided and 2
  propagated, the analysis of the conflict \<open>[-1, -2]\<close> ends with \<^verbatim>\<open>cP\<close> empty and the
  learned clause \<open>[-1]\<close>.
\<close>

theorem formula_only_grows_witness:
  "enumerates ascending \<and>
   (\<exists>s'. solveLoop (\<lambda>k. ascending) (AddFormula [[- 1, - 2, 3], [- 1, - 2, - 3]] New) =
            Some (Inr (True, s')) \<and>
          learnedClauses (\<lambda>k. ascending) (AddFormula [[- 1, - 2, 3], [- 1, - 2, - 3]] New) =
            Some [[- 1, - 2]] \<and>
          s_f s' = s_f (AddFormula [[- 1, - 2, 3], [- 1, - 2, - 3]] New) @ [[- 1, - 2]]) \<and>
   (\<exists>s'. solveLoop (\<lambda>k. ascending) (AddFormula [[1, 2], [1, - 2], [- 1, 2], [- 1, - 2]] New) =
            Some (Inr (False, s')) \<and>
          learnedClauses (\<lambda>k. ascending) (AddFormula [[1, 2], [1, - 2], [- 1, 2], [- 1, - 2]] New) =
            Some [[- 1]] \<and>
          s_f s' = s_f (AddFormula [[1, 2], [1, - 2], [- 1, 2], [- 1, - 2]] New)) \<and>
   (\<exists>t3 t5.
      applyExplainUIP ascending
        (applyConflict [- 1, - 2]
          (pushUnit [- 1, 2] 2
            ((AddFormula [[1, 2], [1, - 2], [- 1, 2], [- 1, - 2]] New)\<lparr>s_m := Assert newTrail 1 True\<rparr>)))
        = Some t3 \<and>
      cP t3 = {} \<and> s_c t3 = [- 1] \<and> backjumpLevel ascending t3 = 0 \<and>
      applyBackjump ascending t3 = Inr t5 \<and> CurrentLevel (s_m t5) = 0 \<and> s_f t5 = s_f t3 \<and>
      reasonMap t5 (- 1) = Some [- 1])"
proof -
  define a where "a = AddFormula [[- 1, - 2, 3], [- 1, - 2, - 3]] New"
  define r where "r = solveLoop (\<lambda>k. ascending) a"
  have "map_option (map_sum id fst) r = Some (Inr True)"
    unfolding r_def a_def by code_simp
  then obtain s' where s': "r = Some (Inr (True, s'))"
    by (cases r) (auto simp: map_sum_def split: sum.splits)
  have la: "learnedClauses (\<lambda>k. ascending) a = Some [[- 1, - 2]]"
    unfolding a_def by code_simp
  define u where "u = AddFormula [[1, 2], [1, - 2], [- 1, 2], [- 1, - 2]] New"
  define q where "q = solveLoop (\<lambda>k. ascending) u"
  have "map_option (map_sum id fst) q = Some (Inr False)"
    unfolding q_def u_def by code_simp
  then obtain s'' where s'': "q = Some (Inr (False, s''))"
    by (cases q) (auto simp: map_sum_def split: sum.splits)
  have lu: "learnedClauses (\<lambda>k. ascending) u = Some [[- 1]]"
    unfolding u_def by code_simp
  define t where "t = applyConflict [- 1, - 2]
          (pushUnit [- 1, 2] 2
            ((AddFormula [[1, 2], [1, - 2], [- 1, 2], [- 1, - 2]] New)\<lparr>s_m := Assert newTrail 1 True\<rparr>))"
  define t3 where "t3 = the (applyExplainUIP ascending t)"
  define t5 where "t5 = projr (applyBackjump ascending t3)"
  have "case applyExplainUIP ascending t of None \<Rightarrow> False | Some _ \<Rightarrow> True"
    unfolding t_def by code_simp
  then have e3: "applyExplainUIP ascending t = Some t3"
    by (auto simp: t3_def split: option.splits)
  have p3: "cP t3 = {}"
    unfolding t3_def t_def by code_simp
  have l3: "cL t3 = 1"
    unfolding t3_def t_def by code_simp
  have "case applyBackjump ascending t3 of Inl _ \<Rightarrow> False | Inr _ \<Rightarrow> True"
    unfolding t3_def t_def by code_simp
  then have b5: "applyBackjump ascending t3 = Inr t5"
    by (auto simp: t5_def split: sum.splits)
  note T = formula_only_grows[OF enumerates_ascending, of "\<lambda>k. ascending" a True s' t t3]
  from T s' la have A: "s_f s' = s_f a @ [[- 1, - 2]]"
    by (simp add: r_def)
  note U = formula_only_grows[OF enumerates_ascending, of "\<lambda>k. ascending" u False s'' t t3]
  from U s'' lu have C: "s_f s'' = s_f u"
    by (simp add: q_def)
  from T e3 p3 b5 l3
  have B: "s_c t3 = [- 1] \<and> backjumpLevel ascending t3 = 0 \<and> CurrentLevel (s_m t5) = 0 \<and>
      s_f t5 = s_f t3 \<and> reasonMap t5 (- 1) = Some [- 1]"
    by (simp add: Negate_def)
  have 1: "\<exists>s'. solveLoop (\<lambda>k. ascending) a = Some (Inr (True, s')) \<and>
      learnedClauses (\<lambda>k. ascending) a = Some [[- 1, - 2]] \<and> s_f s' = s_f a @ [[- 1, - 2]]"
    using s' la A unfolding r_def by blast
  have 2: "\<exists>s'. solveLoop (\<lambda>k. ascending) u = Some (Inr (False, s')) \<and>
      learnedClauses (\<lambda>k. ascending) u = Some [[- 1]] \<and> s_f s' = s_f u"
    using s'' lu C unfolding q_def by blast
  have 3: "\<exists>t3 t5. applyExplainUIP ascending t = Some t3 \<and>
      cP t3 = {} \<and> s_c t3 = [- 1] \<and> backjumpLevel ascending t3 = 0 \<and>
      applyBackjump ascending t3 = Inr t5 \<and> CurrentLevel (s_m t5) = 0 \<and> s_f t5 = s_f t3 \<and>
      reasonMap t5 (- 1) = Some [- 1]"
    using e3 p3 b5 B by blast
  from 1 2 3 enumerates_ascending show ?thesis
    unfolding a_def u_def t_def by blast
qed

section \<open>Unit propagation: the claim\<close>

text \<open>The trail after asserting the literals of a list, in order, as propagated literals.\<close>

definition assertAll :: "trail \<Rightarrow> Literal list \<Rightarrow> trail" where
  "assertAll t ls = foldl (\<lambda>t' l. Assert t' l False) t ls"

lemma assertAll_Nil [simp]: "assertAll t [] = t"
  by (simp add: assertAll_def)

lemma assertAll_Cons [simp]: "assertAll t (l # ls) = assertAll (Assert t l False) ls"
  by (simp add: assertAll_def)

lemma lits_Assert [simp]: "lits (Assert t l d) = lits t @ [l]"
  by (simp add: lits_def Assert_def)

lemma lits_assertAll: "lits (assertAll t ls) = lits t @ ls"
  by (induction ls arbitrary: t) simp_all

lemma firstUnit_not_on_trail:
  "firstUnit t fm = Some (cl, l) \<Longrightarrow> l \<notin> set (lits t)"
  by (auto dest!: firstUnit_Some simp: IsUnit_def ValueLit_def split: if_splits)

definition propagated :: "solver \<Rightarrow> Literal list \<Rightarrow> solver \<Rightarrow> bool" where
  "propagated s ls s' \<longleftrightarrow>
     sameButTrail s s' \<and> s_m s' = assertAll (s_m s) ls \<and>
     set ls \<inter> set (lits (s_m s)) = {} \<and>
     (\<forall>i<length ls. \<exists>cl.
        firstUnit (assertAll (s_m s) (take i ls)) (s_f s) = Some (cl, ls ! i) \<and>
        reasonMap s' (ls ! i) = Some cl \<and>
        (0 < i \<longrightarrow> IsFormulaFalse (assertAll (s_m s) (take i ls)) (s_f s) = None)) \<and>
     (\<forall>x. x \<notin> set ls \<longrightarrow> reasonMap s' x = reasonMap s x) \<and>
     (firstUnit (s_m s') (s_f s) = None \<or> ls \<noteq> [] \<and> IsFormulaFalse (s_m s') (s_f s) \<noteq> None)"

lemma propagated_stop:
  "firstUnit (s_m s) (s_f s) = None \<Longrightarrow> propagated s [] s"
  by (simp add: propagated_def sameButTrail_def)

lemma propagated_conflict:
  assumes "firstUnit (s_m s) (s_f s) = Some (cl, l)"
    and "IsFormulaFalse (s_m (pushUnit cl l s)) (s_f s) \<noteq> None"
  shows "propagated s [l] (pushUnit cl l s)"
  using assms firstUnit_not_on_trail[OF assms(1)]
  by (simp add: propagated_def sameButTrail_def pushUnit_def)

lemma propagated_step:
  assumes fu: "firstUnit (s_m s) (s_f s) = Some (cl, l)"
    and nf: "IsFormulaFalse (s_m (pushUnit cl l s)) (s_f s) = None"
    and p: "propagated (pushUnit cl l s) ls s'"
  shows "propagated s (l # ls) s'"
proof -
  note P = p[unfolded propagated_def]
  from P have sb: "sameButTrail (pushUnit cl l s) s'"
    by blast
  from P have "s_m s' = assertAll (s_m (pushUnit cl l s)) ls"
    by blast
  then have m: "s_m s' = assertAll (Assert (s_m s) l False) ls"
    by simp
  from P have "set ls \<inter> set (lits (s_m (pushUnit cl l s))) = {}"
    by blast
  then have dj: "set ls \<inter> set (lits (s_m s) @ [l]) = {}"
    by simp
  from P have "\<forall>i<length ls. \<exists>cl'.
        firstUnit (assertAll (s_m (pushUnit cl l s)) (take i ls)) (s_f (pushUnit cl l s)) = Some (cl', ls ! i) \<and>
        reasonMap s' (ls ! i) = Some cl' \<and>
        (0 < i \<longrightarrow> IsFormulaFalse (assertAll (s_m (pushUnit cl l s)) (take i ls)) (s_f (pushUnit cl l s)) = None)"
    by blast
  then have tr: "\<forall>i<length ls. \<exists>cl'.
        firstUnit (assertAll (Assert (s_m s) l False) (take i ls)) (s_f s) = Some (cl', ls ! i) \<and>
        reasonMap s' (ls ! i) = Some cl' \<and>
        (0 < i \<longrightarrow> IsFormulaFalse (assertAll (Assert (s_m s) l False) (take i ls)) (s_f s) = None)"
    by (simp only: pushUnit_frame)
  from P have "\<forall>x. x \<notin> set ls \<longrightarrow> reasonMap s' x = reasonMap (pushUnit cl l s) x"
    by blast
  then have rm: "\<forall>x. x \<notin> set ls \<longrightarrow> reasonMap s' x = ((reasonMap s)(l \<mapsto> cl)) x"
    by (simp only: pushUnit_frame)
  from P have "firstUnit (s_m s') (s_f (pushUnit cl l s)) = None \<or>
      ls \<noteq> [] \<and> IsFormulaFalse (s_m s') (s_f (pushUnit cl l s)) \<noteq> None"
    by blast
  then have fin: "firstUnit (s_m s') (s_f s) = None \<or> ls \<noteq> [] \<and> IsFormulaFalse (s_m s') (s_f s) \<noteq> None"
    by (simp only: pushUnit_frame)
  have l_new: "l \<notin> set (lits (s_m s))"
    by (rule firstUnit_not_on_trail[OF fu])
  have l_ls: "l \<notin> set ls"
    using dj by auto
  from sb have "s' = (pushUnit cl l s)\<lparr>s_m := s_m s', reasonMap := reasonMap s'\<rparr>"
    by (simp add: sameButTrail_def)
  then have "s' = s\<lparr>s_m := s_m s', reasonMap := reasonMap s'\<rparr>"
    by (simp add: pushUnit_def)
  then have 1: "sameButTrail s s'"
    by (simp add: sameButTrail_def)
  have 2: "s_m s' = assertAll (s_m s) (l # ls)"
    using m by simp
  have 3: "set (l # ls) \<inter> set (lits (s_m s)) = {}"
    using dj l_new by auto
  have rl: "reasonMap s' l = Some cl"
    using rm l_ls by simp
  have 4: "\<forall>i<length (l # ls). \<exists>cl'.
        firstUnit (assertAll (s_m s) (take i (l # ls))) (s_f s) = Some (cl', (l # ls) ! i) \<and>
        reasonMap s' ((l # ls) ! i) = Some cl' \<and>
        (0 < i \<longrightarrow> IsFormulaFalse (assertAll (s_m s) (take i (l # ls))) (s_f s) = None)"
  proof (intro allI impI)
    fix i assume i: "i < length (l # ls)"
    show "\<exists>cl'. firstUnit (assertAll (s_m s) (take i (l # ls))) (s_f s) = Some (cl', (l # ls) ! i) \<and>
        reasonMap s' ((l # ls) ! i) = Some cl' \<and>
        (0 < i \<longrightarrow> IsFormulaFalse (assertAll (s_m s) (take i (l # ls))) (s_f s) = None)"
    proof (cases i)
      case 0
      with fu rl show ?thesis by simp
    next
      case (Suc j)
      with i have j: "j < length ls" by simp
      from tr j obtain cl' where
        c: "firstUnit (assertAll (Assert (s_m s) l False) (take j ls)) (s_f s) = Some (cl', ls ! j)"
          "reasonMap s' (ls ! j) = Some cl'"
          "0 < j \<longrightarrow> IsFormulaFalse (assertAll (Assert (s_m s) l False) (take j ls)) (s_f s) = None"
        by blast
      have "IsFormulaFalse (assertAll (Assert (s_m s) l False) (take j ls)) (s_f s) = None"
      proof (cases j)
        case 0
        with nf show ?thesis by simp
      next
        case (Suc k)
        with c(3) show ?thesis by simp
      qed
      with c Suc show ?thesis by simp
    qed
  qed
  have 5: "\<forall>x. x \<notin> set (l # ls) \<longrightarrow> reasonMap s' x = reasonMap s x"
    using rm by simp
  have 6: "firstUnit (s_m s') (s_f s) = None \<or> l # ls \<noteq> [] \<and> IsFormulaFalse (s_m s') (s_f s) \<noteq> None"
  proof (cases "ls = []")
    case True
    with m have "s_m s' = s_m (pushUnit cl l s)" by simp
    with fin nf True show ?thesis by simp
  next
    case False
    with fin show ?thesis by auto
  qed
  from 1 2 3 4 5 6 show ?thesis
    unfolding propagated_def by blast
qed

lemma unitPropagate_propagated: "\<exists>s'. unitPropagate s = Inr s' \<and> (\<exists>ls. propagated s ls s')"
proof (rule unitPropagate_rule)
  show "\<And>s. firstUnit (s_m s) (s_f s) = None \<Longrightarrow> \<exists>ls. propagated s ls s"
    using propagated_stop by blast
  show "\<And>s cl l. firstUnit (s_m s) (s_f s) = Some (cl, l) \<Longrightarrow>
      IsFormulaFalse (s_m (pushUnit cl l s)) (s_f s) \<noteq> None \<Longrightarrow> \<exists>ls. propagated s ls (pushUnit cl l s)"
    using propagated_conflict by blast
  show "\<And>s cl l s'. firstUnit (s_m s) (s_f s) = Some (cl, l) \<Longrightarrow>
      IsFormulaFalse (s_m (pushUnit cl l s)) (s_f s) = None \<Longrightarrow>
      unitPropagate (pushUnit cl l s) = Inr s' \<Longrightarrow>
      \<exists>ls. propagated (pushUnit cl l s) ls s' \<Longrightarrow> \<exists>ls. propagated s ls s'"
    using propagated_step by blast
qed


text \<open>
  C6, as the code has it. \<^verbatim>\<open>unitPropagate\<close> never panics. It asserts a list \<open>ls\<close> of
  literals, none as a decision, and changes nothing but the trail and the reasons. Each
  literal is the one that the scan in formula order (\<open>firstUnit\<close>) finds on the trail as it
  is just before, and its clause is recorded as its reason. The test for a falsified clause
  comes after an assertion only: every literal but the first is asserted on a trail that
  falsifies no clause, and if no clause is falsified on entry that holds for the first
  one too. The loop stops when the scan finds no unit clause, or right after an assertion
  that leaves some clause falsified.
\<close>

theorem unitPropagate_trace:
  "\<exists>s' ls. unitPropagate s = Inr s' \<and> s_m s' = assertAll (s_m s) ls \<and> s_f s' = s_f s \<and>
     (\<forall>i<length ls. \<exists>cl.
        firstUnit (assertAll (s_m s) (take i ls)) (s_f s) = Some (cl, ls ! i) \<and>
        reasonMap s' (ls ! i) = Some cl \<and>
        (0 < i \<or> IsFormulaFalse (s_m s) (s_f s) = None \<longrightarrow>
           IsFormulaFalse (assertAll (s_m s) (take i ls)) (s_f s) = None)) \<and>
     (\<forall>x. x \<notin> set ls \<longrightarrow> reasonMap s' x = reasonMap s x) \<and>
     (firstUnit (s_m s') (s_f s) = None \<or> ls \<noteq> [] \<and> IsFormulaFalse (s_m s') (s_f s) \<noteq> None)"
proof -
  from unitPropagate_propagated[of s] obtain s' ls
    where u: "unitPropagate s = Inr s'" and p: "propagated s ls s'"
    by blast
  note P = p[unfolded propagated_def]
  from P have m: "s_m s' = assertAll (s_m s) ls"
    by blast
  have f: "s_f s' = s_f s"
    by (rule unitPropagate_frame(1)[OF u])
  from P have tr: "\<forall>i<length ls. \<exists>cl.
        firstUnit (assertAll (s_m s) (take i ls)) (s_f s) = Some (cl, ls ! i) \<and>
        reasonMap s' (ls ! i) = Some cl \<and>
        (0 < i \<longrightarrow> IsFormulaFalse (assertAll (s_m s) (take i ls)) (s_f s) = None)"
    by blast
  have tr': "\<forall>i<length ls. \<exists>cl.
        firstUnit (assertAll (s_m s) (take i ls)) (s_f s) = Some (cl, ls ! i) \<and>
        reasonMap s' (ls ! i) = Some cl \<and>
        (0 < i \<or> IsFormulaFalse (s_m s) (s_f s) = None \<longrightarrow>
           IsFormulaFalse (assertAll (s_m s) (take i ls)) (s_f s) = None)"
  proof (intro allI impI)
    fix i assume "i < length ls"
    with tr obtain cl where c:
      "firstUnit (assertAll (s_m s) (take i ls)) (s_f s) = Some (cl, ls ! i)"
      "reasonMap s' (ls ! i) = Some cl"
      "0 < i \<longrightarrow> IsFormulaFalse (assertAll (s_m s) (take i ls)) (s_f s) = None"
      by blast
    have "0 < i \<or> IsFormulaFalse (s_m s) (s_f s) = None \<longrightarrow>
           IsFormulaFalse (assertAll (s_m s) (take i ls)) (s_f s) = None"
      using c(3) by (cases i) auto
    with c(1,2) show "\<exists>cl.
        firstUnit (assertAll (s_m s) (take i ls)) (s_f s) = Some (cl, ls ! i) \<and>
        reasonMap s' (ls ! i) = Some cl \<and>
        (0 < i \<or> IsFormulaFalse (s_m s) (s_f s) = None \<longrightarrow>
           IsFormulaFalse (assertAll (s_m s) (take i ls)) (s_f s) = None)"
      by (intro exI[of _ cl] conjI)
  qed
  from P have rm: "\<forall>x. x \<notin> set ls \<longrightarrow> reasonMap s' x = reasonMap s x"
    by blast
  from P have fin: "firstUnit (s_m s') (s_f s) = None \<or> ls \<noteq> [] \<and> IsFormulaFalse (s_m s') (s_f s) \<noteq> None"
    by blast
  from u m f tr' rm fin show ?thesis
    by blast
qed

text \<open>
  The theorem on \<open>{[4], [6], [-4, -6]}\<close>: the literals asserted are 4, then 6, with the
  reasons \<open>[4]\<close> and \<open>[6]\<close>; no clause is falsified before either assertion, and the
  loop stops because the trail falsifies \<open>[-4, -6]\<close>.
\<close>

theorem unitPropagate_trace_witness:
  "\<exists>s'. unitPropagate (AddFormula [[4], [6], [- 4, - 6]] New) = Inr s' \<and>
     s_m s' = assertAll newTrail [4, 6] \<and>
     firstUnit newTrail [[4], [6], [- 4, - 6]] = Some ([4], 4) \<and> reasonMap s' 4 = Some [4] \<and>
     firstUnit (assertAll newTrail [4]) [[4], [6], [- 4, - 6]] = Some ([6], 6) \<and>
     reasonMap s' 6 = Some [6] \<and>
     IsFormulaFalse newTrail [[4], [6], [- 4, - 6]] = None \<and>
     IsFormulaFalse (assertAll newTrail [4]) [[4], [6], [- 4, - 6]] = None \<and>
     IsFormulaFalse (s_m s') [[4], [6], [- 4, - 6]] = Some [- 4, - 6]"
proof -
  define a where "a = AddFormula [[4], [6], [- 4, - 6]] New"
  have fa: "s_f a = [[4], [6], [- 4, - 6]]" and ma: "s_m a = newTrail"
    by (simp_all add: a_def AddFormula_def New_def)
  from unitPropagate_trace[of a] obtain s' ls where
    u: "unitPropagate a = Inr s'" and m: "s_m s' = assertAll (s_m a) ls"
    and tr: "\<forall>i<length ls. \<exists>cl.
        firstUnit (assertAll (s_m a) (take i ls)) (s_f a) = Some (cl, ls ! i) \<and>
        reasonMap s' (ls ! i) = Some cl \<and>
        (0 < i \<or> IsFormulaFalse (s_m a) (s_f a) = None \<longrightarrow>
           IsFormulaFalse (assertAll (s_m a) (take i ls)) (s_f a) = None)"
    by blast
  have "lits (s_m (projr (unitPropagate a))) = [4, 6]"
    unfolding a_def by code_simp
  moreover have "lits (s_m s') = lits (s_m a) @ ls"
    by (simp only: m lits_assertAll)
  moreover have "lits (s_m a) = []"
    by (simp add: ma newTrail_def lits_def)
  ultimately have ls: "ls = [4, 6]"
    using u by simp
  have e0: "firstUnit newTrail [[4], [6], [- 4, - 6]] = Some ([4], 4)"
    by code_simp
  have e1: "firstUnit (assertAll newTrail [4]) [[4], [6], [- 4, - 6]] = Some ([6], 6)"
    by code_simp
  have n0: "IsFormulaFalse newTrail [[4], [6], [- 4, - 6]] = None"
    by code_simp
  have c2: "IsFormulaFalse (assertAll newTrail [4, 6]) [[4], [6], [- 4, - 6]] = Some [- 4, - 6]"
    by code_simp
  from tr ls have "\<exists>cl. firstUnit (assertAll (s_m a) (take 0 ls)) (s_f a) = Some (cl, ls ! 0) \<and>
        reasonMap s' (ls ! 0) = Some cl"
    by auto
  then have r0: "reasonMap s' 4 = Some [4]"
    using e0 by (simp add: ls fa ma)
  from tr ls have "\<exists>cl. firstUnit (assertAll (s_m a) (take 1 ls)) (s_f a) = Some (cl, ls ! 1) \<and>
        reasonMap s' (ls ! 1) = Some cl \<and>
        IsFormulaFalse (assertAll (s_m a) (take 1 ls)) (s_f a) = None"
    by auto
  then have r1: "reasonMap s' 6 = Some [6]"
    and n1: "IsFormulaFalse (assertAll newTrail [4]) [[4], [6], [- 4, - 6]] = None"
    using e1 by (auto simp: ls fa ma)
  from u m ls e0 e1 r0 r1 n0 n1 c2 show ?thesis
    unfolding a_def[symmetric] by (auto simp: ma)
qed

text \<open>
  C6, as the spec states it, fails where a clause is falsified on entry. On
  \<open>{[4], [6], [-4, -6], [7]}\<close> \<^verbatim>\<open>Solve\<close> returns false and leaves the trail \<open>[4, 6]\<close>,
  which falsifies \<open>[-4, -6]\<close>. \<^verbatim>\<open>unitPropagate\<close> on that state (the first step of a
  second \<^verbatim>\<open>Solve\<close>) still asserts 7.
\<close>

theorem unitPropagate_asserts_on_conflict:
  "map_option (map_sum id fst)
     (Solve (\<lambda>k. ascending) (AddFormula [[4], [6], [- 4, - 6], [7]] New)) = Some (Inr False) \<and>
   lits (s_m (snd (projr (the
     (Solve (\<lambda>k. ascending) (AddFormula [[4], [6], [- 4, - 6], [7]] New)))))) = [4, 6] \<and>
   IsFormulaFalse
     (s_m (snd (projr (the
       (Solve (\<lambda>k. ascending) (AddFormula [[4], [6], [- 4, - 6], [7]] New))))))
     (s_f (snd (projr (the
       (Solve (\<lambda>k. ascending) (AddFormula [[4], [6], [- 4, - 6], [7]] New)))))) = Some [- 4, - 6] \<and>
   lits (s_m (projr (unitPropagate (snd (projr (the
     (Solve (\<lambda>k. ascending) (AddFormula [[4], [6], [- 4, - 6], [7]] New)))))))) = [4, 6, 7]"
  by code_simp

section \<open>Levels along the trail\<close>

definition evars :: "trailElem list \<Rightarrow> int set" where
  "evars es = (\<lambda>e. \<bar>Lit e\<bar>) ` set es"

definition decisions :: "trailElem list \<Rightarrow> nat" where
  "decisions es = length (filter Decision es)"

lemma evars_simps [simp]:
  "evars [] = {}" "evars (e # es) = insert \<bar>Lit e\<bar> (evars es)"
  "evars (es @ es') = evars es \<union> evars es'"
  by (auto simp: evars_def)

lemma decisions_simps [simp]:
  "decisions [] = 0" "decisions (e # es) = (if Decision e then Suc (decisions es) else decisions es)"
  "decisions (es @ es') = decisions es + decisions es'"
  by (simp_all add: decisions_def)

lemma tvars_evars: "tvars t = evars (elems t)"
  by (simp add: tvars_def evars_def lits_def image_image)

lemma DecisionsLen_decisions: "DecisionsLen t = decisions (elems t)"
  by (simp add: DecisionsLen_def decisions_def)

lemma levelFrom_notin: "v \<notin> evars es \<Longrightarrow> levelFrom k es v = 0"
  by (induction es arbitrary: k) (auto simp: Let_def)

lemma levelFrom_append:
  "levelFrom k (es @ es') v =
     (if v \<in> evars es then levelFrom k es v else levelFrom (k + decisions es) es' v)"
  by (induction es arbitrary: k) (auto simp: Let_def)

lemma levelFrom_bounds:
  "v \<in> evars es \<Longrightarrow> k \<le> levelFrom k es v \<and> levelFrom k es v \<le> k + decisions es"
proof (induction es arbitrary: k)
  case Nil
  then show ?case by simp
next
  case (Cons e es)
  show ?case
  proof (cases "\<bar>Lit e\<bar> = v")
    case True
    then show ?thesis by (simp add: Let_def)
  next
    case False
    with Cons.prems have "v \<in> evars es" by simp
    from Cons.IH[OF this, of "if Decision e then Suc k else k"] False show ?thesis
      by (auto simp: Let_def split: if_splits)
  qed
qed

lemma levelFrom_decision_first:
  "Decision e \<Longrightarrow> v \<in> evars (e # es) \<Longrightarrow> Suc k \<le> levelFrom k (e # es) v"
  using levelFrom_bounds[of v es "Suc k"] by (auto simp: Let_def)

lemma Level_le_CurrentLevel: "Level t l \<le> CurrentLevel t"
proof (cases "\<bar>l\<bar> \<in> evars (elems t)")
  case True
  from levelFrom_bounds[OF this, of 0] show ?thesis
    by (simp add: Level_def CurrentLevel_def DecisionsLen_decisions)
next
  case False
  then show ?thesis by (simp add: Level_def levelFrom_notin)
qed

lemma Level_Negate [simp]: "Level t (Negate l) = Level t l"
  by (simp add: Level_def Negate_def)

lemma Level_pos_assigned: "0 < Level t l \<Longrightarrow> \<bar>l\<bar> \<in> tvars t"
  using levelFrom_notin[of "\<bar>l\<bar>" "elems t" 0] by (auto simp: Level_def tvars_evars)

text \<open>Trimming keeps a prefix; what it drops starts with the decision that opened the next level.\<close>

lemma trimElems_split:
  "\<exists>rest. es = trimElems k es @ rest \<and>
     (rest = [] \<or> (Decision (hd rest) \<and> decisions (trimElems k es) = k))"
proof (induction es arbitrary: k)
  case Nil
  then show ?case by simp
next
  case (Cons e es)
  show ?case
  proof (cases "Decision e")
    case False
    from Cons.IH[of k] False show ?thesis by auto
  next
    case True
    show ?thesis
    proof (cases k)
      case 0
      with True show ?thesis by simp
    next
      case (Suc j)
      from Cons.IH[of j] True Suc show ?thesis by auto
    qed
  qed
qed

lemma decisions_trimElems_le: "decisions (trimElems k es) \<le> k"
  using decisions_trimElems[of k es] by (simp add: decisions_def)

lemma evars_trimElems:
  assumes "distinct (map (\<lambda>e. \<bar>Lit e\<bar>) es)"
  shows "v \<in> evars (trimElems k es) \<longleftrightarrow> v \<in> evars es \<and> levelFrom 0 es v \<le> k"
proof -
  from trimElems_split[of es k] obtain rest where
    es: "es = trimElems k es @ rest"
    and r: "rest = [] \<or> (Decision (hd rest) \<and> decisions (trimElems k es) = k)"
    by blast
  let ?p = "trimElems k es"
  from assms es have dj: "evars ?p \<inter> evars rest = {}"
    by (metis (no_types, lifting) distinct_append evars_def list.set_map map_append)
  show ?thesis
  proof
    assume v: "v \<in> evars ?p"
    then have "levelFrom 0 es v = levelFrom 0 ?p v"
      using levelFrom_append[of 0 ?p rest v] es by simp
    moreover have "levelFrom 0 ?p v \<le> decisions ?p"
      using levelFrom_bounds[OF v, of 0] by simp
    ultimately show "v \<in> evars es \<and> levelFrom 0 es v \<le> k"
      using v es decisions_trimElems_le[of k es] by (metis UnI1 evars_simps(3) le_trans)
  next
    assume a: "v \<in> evars es \<and> levelFrom 0 es v \<le> k"
    show "v \<in> evars ?p"
    proof (rule ccontr)
      assume n: "v \<notin> evars ?p"
      with a es have vr: "v \<in> evars rest"
        by (metis Un_iff evars_simps(3))
      then have "rest \<noteq> []" by auto
      with r have d: "Decision (hd rest)" and k: "decisions ?p = k" by auto
      from \<open>rest \<noteq> []\<close> obtain e rs where rs: "rest = e # rs" by (cases rest) auto
      have "levelFrom 0 es v = levelFrom k rest v"
        using levelFrom_append[of 0 ?p rest v] es n k by simp
      moreover have "Suc k \<le> levelFrom k rest v"
        using levelFrom_decision_first[of e v rs k] d vr rs by simp
      ultimately show False using a by simp
    qed
  qed
qed

lemma levelFrom_trimElems:
  "v \<in> evars (trimElems k es) \<Longrightarrow> levelFrom 0 (trimElems k es) v = levelFrom 0 es v"
proof -
  assume v: "v \<in> evars (trimElems k es)"
  from trimElems_split[of es k] obtain rest where es: "es = trimElems k es @ rest"
    by blast
  show ?thesis
    using levelFrom_append[of 0 "trimElems k es" rest v] es v by simp
qed

section \<open>The working set of conflict analysis\<close>

lemma ValueLit_TriFalse:
  "ValueLit t l = TriFalse \<longleftrightarrow> l \<notin> set (lits t) \<and> Negate l \<in> set (lits t)"
  by (simp add: ValueLit_def)

lemma ValueLit_Undef:
  "ValueLit t l = Undef \<longleftrightarrow> l \<notin> set (lits t) \<and> Negate l \<notin> set (lits t)"
  by (simp add: ValueLit_def)

lemma ValueLit_TriTrue: "ValueLit t l = TriTrue \<longleftrightarrow> l \<in> set (lits t)"
  by (simp add: ValueLit_def)

text \<open>
  What \<^verbatim>\<open>cH\<close>, \<^verbatim>\<open>cP\<close> and \<^verbatim>\<open>cN\<close> hold during conflict analysis: every literal of
  \<^verbatim>\<open>cH\<close> is falsified at a level above 0, \<^verbatim>\<open>cP\<close> holds those below the current level
  and \<^verbatim>\<open>cN\<close> counts those at the current level.
\<close>

definition atLevel :: "trail \<Rightarrow> Literal set \<Rightarrow> Literal set" where
  "atLevel t H = {l \<in> H. Level t l = CurrentLevel t}"

definition belowLevel :: "trail \<Rightarrow> Literal set \<Rightarrow> Literal set" where
  "belowLevel t H = {l \<in> H. Level t l \<noteq> CurrentLevel t}"

definition analysisInv :: "solver \<Rightarrow> bool" where
  "analysisInv s \<longleftrightarrow>
     finite (cH s) \<and>
     (\<forall>l\<in>cH s. ValueLit (s_m s) l = TriFalse \<and> 0 < Level (s_m s) l) \<and>
     cP s = belowLevel (s_m s) (cH s) \<and>
     cN s = int (card (atLevel (s_m s) (cH s)))"

lemma atLevel_insert:
  "atLevel t (insert l H) = (if Level t l = CurrentLevel t then insert l (atLevel t H) else atLevel t H)"
  by (auto simp: atLevel_def)

lemma belowLevel_insert:
  "belowLevel t (insert l H) = (if Level t l = CurrentLevel t then belowLevel t H else insert l (belowLevel t H))"
  by (auto simp: belowLevel_def)

lemma atLevel_remove: "atLevel t (H - {l}) = atLevel t H - {l}"
  by (auto simp: atLevel_def)

lemma belowLevel_remove: "belowLevel t (H - {l}) = belowLevel t H - {l}"
  by (auto simp: belowLevel_def)

lemma atLevel_subset: "atLevel t H \<subseteq> H"
  by (auto simp: atLevel_def)

lemma atLevel_below: "atLevel t H \<union> belowLevel t H = H" "atLevel t H \<inter> belowLevel t H = {}"
  by (auto simp: atLevel_def belowLevel_def)

lemma cH_addConflictLiteral:
  "cH (addConflictLiteral l s) = (if 0 < Level (s_m s) l then insert l (cH s) else cH s)"
  by (auto simp: addConflictLiteral_def Let_def)

lemma analysisInv_add:
  assumes "analysisInv s" and "ValueLit (s_m s) l = TriFalse"
  shows "analysisInv (addConflictLiteral l s)"
proof (cases "l \<in> cH s \<or> Level (s_m s) l = 0")
  case True
  then have "addConflictLiteral l s = s"
    by (auto simp: addConflictLiteral_def Let_def)
  with assms(1) show ?thesis by simp
next
  case False
  then have n: "l \<notin> cH s" and p: "0 < Level (s_m s) l" by auto
  from assms(1) have fin: "finite (cH s)"
    and fa: "\<forall>l\<in>cH s. ValueLit (s_m s) l = TriFalse \<and> 0 < Level (s_m s) l"
    and P: "cP s = belowLevel (s_m s) (cH s)"
    and N: "cN s = int (card (atLevel (s_m s) (cH s)))"
    by (simp_all add: analysisInv_def)
  have nl: "l \<notin> atLevel (s_m s) (cH s)"
    using n atLevel_subset by blast
  have f2: "finite (atLevel (s_m s) (cH s))"
    using fin atLevel_subset by (rule rev_finite_subset)
  show ?thesis
  proof (cases "Level (s_m s) l = CurrentLevel (s_m s)")
    case True
    have e: "addConflictLiteral l s = s\<lparr>cH := insert l (cH s), cN := cN s + 1\<rparr>"
      using n p True by (simp add: addConflictLiteral_def Let_def)
    show ?thesis
      unfolding analysisInv_def e
      using fin fa P N assms(2) p True nl f2
      by (simp add: atLevel_insert belowLevel_insert)
  next
    case False
    have e: "addConflictLiteral l s = s\<lparr>cH := insert l (cH s), cP := insert l (cP s)\<rparr>"
      using n p False by (simp add: addConflictLiteral_def Let_def)
    show ?thesis
      unfolding analysisInv_def e
      using fin fa P N assms(2) p False
      by (simp add: atLevel_insert belowLevel_insert)
  qed
qed

lemma analysisInv_remove:
  assumes "analysisInv s" and "l \<in> cH s"
  shows "analysisInv (removeConflictLiteral l s)"
proof -
  from assms(1) have fin: "finite (cH s)"
    and fa: "\<forall>l\<in>cH s. ValueLit (s_m s) l = TriFalse \<and> 0 < Level (s_m s) l"
    and P: "cP s = belowLevel (s_m s) (cH s)"
    and N: "cN s = int (card (atLevel (s_m s) (cH s)))"
    by (simp_all add: analysisInv_def)
  have f2: "finite (atLevel (s_m s) (cH s))"
    using fin atLevel_subset by (rule rev_finite_subset)
  show ?thesis
  proof (cases "Level (s_m s) l = CurrentLevel (s_m s)")
    case True
    have e: "removeConflictLiteral l s = s\<lparr>cH := cH s - {l}, cN := cN s - 1\<rparr>"
      using True by (simp add: removeConflictLiteral_def Let_def)
    have mem: "l \<in> atLevel (s_m s) (cH s)"
      using True assms(2) by (simp add: atLevel_def)
    have nb: "l \<notin> belowLevel (s_m s) (cH s)"
      using True by (simp add: belowLevel_def)
    have "card (atLevel (s_m s) (cH s)) = Suc (card (atLevel (s_m s) (cH s) - {l}))"
      using card_Suc_Diff1[OF f2 mem] by simp
    then have c: "int (card (atLevel (s_m s) (cH s) - {l})) = int (card (atLevel (s_m s) (cH s))) - 1"
      by simp
    show ?thesis
      unfolding analysisInv_def e
      using fin fa P N nb by (simp add: atLevel_remove belowLevel_remove c)
  next
    case False
    have e: "removeConflictLiteral l s = s\<lparr>cH := cH s - {l}, cP := cP s - {l}\<rparr>"
      using False by (simp add: removeConflictLiteral_def Let_def)
    have nm: "l \<notin> atLevel (s_m s) (cH s)"
      using False by (simp add: atLevel_def)
    show ?thesis
      unfolding analysisInv_def e
      using fin fa P N nm by (simp add: atLevel_remove belowLevel_remove)
  qed
qed

lemma cH_removeConflictLiteral: "cH (removeConflictLiteral l s) = cH s - {l}"
  by (simp add: removeConflictLiteral_def Let_def)

lemma fold_add_analysis:
  assumes "analysisInv s" and "\<forall>l\<in>set ls. Q l \<longrightarrow> ValueLit (s_m s) l = TriFalse"
  shows "analysisInv (fold (\<lambda>l s'. if Q l then addConflictLiteral l s' else s') ls s) \<and>
         cH (fold (\<lambda>l s'. if Q l then addConflictLiteral l s' else s') ls s) =
           cH s \<union> {l \<in> set ls. Q l \<and> 0 < Level (s_m s) l}"
  using assms
proof (induction ls arbitrary: s)
  case Nil
  then show ?case by simp
next
  case (Cons x xs)
  let ?s1 = "if Q x then addConflictLiteral x s else s"
  have i1: "analysisInv ?s1"
    using Cons.prems by (auto intro: analysisInv_add)
  have m1: "s_m ?s1 = s_m s" by simp
  have h: "\<forall>l\<in>set xs. Q l \<longrightarrow> ValueLit (s_m ?s1) l = TriFalse"
    using Cons.prems(2) by (simp only: m1) simp
  have c1: "cH ?s1 = cH s \<union> {l \<in> {x}. Q l \<and> 0 < Level (s_m s) l}"
    by (auto simp: cH_addConflictLiteral)
  from Cons.IH[OF i1 h] have a: "analysisInv (fold (\<lambda>l s'. if Q l then addConflictLiteral l s' else s') xs ?s1)"
    and b: "cH (fold (\<lambda>l s'. if Q l then addConflictLiteral l s' else s') xs ?s1) =
           cH ?s1 \<union> {l \<in> set xs. Q l \<and> 0 < Level (s_m ?s1) l}"
    by blast+
  have f: "fold (\<lambda>l s'. if Q l then addConflictLiteral l s' else s') (x # xs) s =
      fold (\<lambda>l s'. if Q l then addConflictLiteral l s' else s') xs ?s1"
    by simp
  have "cH s \<union> {l \<in> {x}. Q l \<and> 0 < Level (s_m s) l} \<union> {l \<in> set xs. Q l \<and> 0 < Level (s_m s) l} =
      cH s \<union> {l \<in> set (x # xs). Q l \<and> 0 < Level (s_m s) l}"
    by auto
  with a b c1 show ?case
    unfolding f by (simp only: m1)
qed

lemma analysisInv_setLastAsserted: "analysisInv (setLastAsserted s) = analysisInv s"
  by (simp add: analysisInv_def)

section \<open>Invariants of the trail and the reasons\<close>

text \<open>No variable is asserted twice.\<close>

definition trailOk :: "trail \<Rightarrow> bool" where
  "trailOk t \<longleftrightarrow> distinct (map abs (lits t))"

text \<open>
  Every propagated literal of the trail has a reason: a clause that holds the literal and
  whose other literals were all falsified by the trail before it.
\<close>

definition reasonsOk :: "solver \<Rightarrow> bool" where
  "reasonsOk s \<longleftrightarrow>
     (\<forall>pre e post. elems (s_m s) = pre @ e # post \<and> \<not> Decision e \<longrightarrow>
        (\<exists>r. reasonMap s (Lit e) = Some r \<and> Lit e \<in> set r \<and>
             (\<forall>l\<in>set r. l \<noteq> Lit e \<longrightarrow> ValueLit \<lparr>elems = pre\<rparr> l = TriFalse)))"

lemma trailOk_inj: "trailOk t \<Longrightarrow> x \<in> set (lits t) \<Longrightarrow> y \<in> set (lits t) \<Longrightarrow> \<bar>x\<bar> = \<bar>y\<bar> \<Longrightarrow> x = y"
  by (auto simp: trailOk_def distinct_map dest: inj_onD)

lemma trailOk_distinct: "trailOk t \<Longrightarrow> distinct (lits t)"
  by (simp add: trailOk_def distinct_map)

lemma trailOk_elems: "trailOk t \<longleftrightarrow> distinct (map (\<lambda>e. \<bar>Lit e\<bar>) (elems t))"
  by (simp add: trailOk_def lits_def comp_def)

lemma Negate_Negate [simp]: "Negate (Negate l) = l"
  by (simp add: Negate_def)

lemma abs_Negate [simp]: "\<bar>Negate l\<bar> = \<bar>l\<bar>"
  by (simp add: Negate_def)

lemma lits_split_elems:
  assumes "lits t = a @ x # b"
  shows "\<exists>ea e eb. elems t = ea @ e # eb \<and> map Lit ea = a \<and> Lit e = x \<and> map Lit eb = b"
  using assms unfolding lits_def by (auto simp: map_eq_append_conv map_eq_Cons_conv)

lemma evars_map_Lit: "evars ea = abs ` set (map Lit ea)"
  by (auto simp: evars_def)

lemma falsified_prefix:
  assumes ok: "trailOk t" and el: "elems t = pre @ rest"
    and f: "ValueLit \<lparr>elems = pre\<rparr> l = TriFalse"
  shows "ValueLit t l = TriFalse"
proof -
  from f have n: "Negate l \<in> set (map Lit pre)" and m: "l \<notin> set (map Lit pre)"
    by (simp_all add: ValueLit_TriFalse lits_def)
  from n el have nl: "Negate l \<in> set (lits t)"
    by (simp add: lits_def)
  have "l \<notin> set (lits t)"
  proof
    assume "l \<in> set (lits t)"
    with trailOk_inj[OF ok this nl] have "l = Negate l" by simp
    with n m show False by simp
  qed
  with nl show ?thesis by (simp add: ValueLit_TriFalse)
qed

lemma takeWhile_until: "x \<notin> set p \<Longrightarrow> takeWhile (\<lambda>z. z \<noteq> x) (p @ x # q) = p"
  by (induction p) auto

lemma earlier_split:
  assumes d: "distinct xs" and 1: "xs = a @ x # b" and 2: "xs = a' @ x' # b'" and m: "x' \<in> set a"
  shows "length a' < length a"
proof -
  from m obtain a1 a2 where a: "a = a1 @ x' # a2"
    by (auto dest: split_list)
  with 1 have xs: "xs = a1 @ x' # (a2 @ x # b)" by simp
  from d xs have n1: "x' \<notin> set a1" by auto
  from d 2 have n2: "x' \<notin> set a'" by auto
  have "takeWhile (\<lambda>z. z \<noteq> x') xs = a1"
    by (subst xs) (rule takeWhile_until[OF n1])
  moreover have "takeWhile (\<lambda>z. z \<noteq> x') xs = a'"
    by (subst 2) (rule takeWhile_until[OF n2])
  ultimately show ?thesis using a by simp
qed

section \<open>The last asserted literal of the working set\<close>

lemma findLast_split:
  "\<exists>x\<in>set ls. Negate x \<in> H \<Longrightarrow>
   \<exists>pre post. ls = pre @ findLast H ls cur # post \<and> (\<forall>x\<in>set pre. Negate x \<notin> H) \<and>
     Negate (findLast H ls cur) \<in> H"
proof (induction ls arbitrary: cur)
  case Nil
  then show ?case by simp
next
  case (Cons l ls)
  show ?case
  proof (cases "Negate l \<in> H")
    case True
    then have "l # ls = [] @ findLast H (l # ls) cur # ls \<and> (\<forall>x\<in>set []. Negate x \<notin> H) \<and>
        Negate (findLast H (l # ls) cur) \<in> H"
      by simp
    then show ?thesis by blast
  next
    case False
    with Cons.prems have "\<exists>x\<in>set ls. Negate x \<in> H" by auto
    from Cons.IH[OF this, of l] obtain pre post where
      "ls = pre @ findLast H ls l # post" "\<forall>x\<in>set pre. Negate x \<notin> H"
      "Negate (findLast H ls l) \<in> H"
      by blast
    with False have "l # ls = (l # pre) @ findLast H (l # ls) cur # post \<and>
        (\<forall>x\<in>set (l # pre). Negate x \<notin> H) \<and> Negate (findLast H (l # ls) cur) \<in> H"
      by simp
    then show ?thesis by blast
  qed
qed

lemma setLastAsserted_split:
  assumes "\<exists>x\<in>set (lits (s_m s)). Negate x \<in> cH s"
  shows "\<exists>a b. lits (s_m s) = a @ cL (setLastAsserted s) # b \<and>
           (\<forall>x\<in>set b. Negate x \<notin> cH s) \<and> Negate (cL (setLastAsserted s)) \<in> cH s"
proof -
  from assms have "\<exists>x\<in>set (rev (lits (s_m s))). Negate x \<in> cH s" by simp
  from findLast_split[OF this, of "cL s"] obtain pre post where
    r: "rev (lits (s_m s)) = pre @ findLast (cH s) (rev (lits (s_m s))) (cL s) # post"
    and p: "\<forall>x\<in>set pre. Negate x \<notin> cH s"
    and h: "Negate (findLast (cH s) (rev (lits (s_m s))) (cL s)) \<in> cH s"
    by blast
  define x where "x = cL (setLastAsserted s)"
  have c: "findLast (cH s) (rev (lits (s_m s))) (cL s) = x"
    by (simp add: x_def setLastAsserted_def)
  from arg_cong[OF r[unfolded c], of rev] have "lits (s_m s) = rev post @ x # rev pre"
    by simp
  moreover from h have "Negate x \<in> cH s"
    by (simp only: c)
  moreover from p have "\<forall>y\<in>set (rev pre). Negate y \<notin> cH s"
    by simp
  ultimately show ?thesis
    unfolding x_def by blast
qed

text \<open>
  The state of a running analysis: the working set is as \<open>analysisInv\<close> says, some
  literal of it is at the current level, and \<^verbatim>\<open>cL\<close> is the last literal of the trail
  whose negation is in \<^verbatim>\<open>cH\<close>; \<open>a\<close> is the trail before \<^verbatim>\<open>cL\<close>.
\<close>

definition explaining :: "solver \<Rightarrow> Literal list \<Rightarrow> bool" where
  "explaining s a \<longleftrightarrow>
     analysisInv s \<and> 1 \<le> cN s \<and> Negate (cL s) \<in> cH s \<and>
     (\<exists>b. lits (s_m s) = a @ cL s # b) \<and>
     (\<forall>l\<in>cH s. Negate l \<in> set a \<union> {cL s})"

lemma explaining_setLast:
  assumes inv: "analysisInv s" and n: "1 \<le> cN s"
  shows "\<exists>a. explaining (setLastAsserted s) a"
proof -
  from inv have fin: "finite (cH s)"
    and fa: "\<forall>l\<in>cH s. ValueLit (s_m s) l = TriFalse \<and> 0 < Level (s_m s) l"
    and N: "cN s = int (card (atLevel (s_m s) (cH s)))"
    by (simp_all add: analysisInv_def)
  from n N have "atLevel (s_m s) (cH s) \<noteq> {}" by auto
  then obtain l where l: "l \<in> cH s" using atLevel_subset by blast
  with fa have "Negate l \<in> set (lits (s_m s))" by (simp add: ValueLit_TriFalse)
  with l have "\<exists>x\<in>set (lits (s_m s)). Negate x \<in> cH s"
    by (intro bexI[of _ "Negate l"]) simp_all
  from setLastAsserted_split[OF this] obtain a b where
    sp: "lits (s_m s) = a @ cL (setLastAsserted s) # b"
    and nb: "\<forall>x\<in>set b. Negate x \<notin> cH s"
    and h: "Negate (cL (setLastAsserted s)) \<in> cH s"
    by blast
  have "\<forall>l\<in>cH s. Negate l \<in> set a \<union> {cL (setLastAsserted s)}"
  proof
    fix l' assume l': "l' \<in> cH s"
    with fa have "Negate l' \<in> set (lits (s_m s))" by (simp add: ValueLit_TriFalse)
    moreover have "Negate l' \<notin> set b"
    proof
      assume "Negate l' \<in> set b"
      with nb have "Negate (Negate l') \<notin> cH s" by blast
      with l' show False by simp
    qed
    ultimately show "Negate l' \<in> set a \<union> {cL (setLastAsserted s)}"
      using sp by auto
  qed
  with inv n sp h have "explaining (setLastAsserted s) a"
    unfolding explaining_def by (auto simp: analysisInv_setLastAsserted)
  then show ?thesis ..
qed

section \<open>One step of the explanation loop\<close>

lemma cN_removeConflictLiteral:
  "Level (s_m s) l = CurrentLevel (s_m s) \<Longrightarrow> cN (removeConflictLiteral l s) = cN s - 1"
  by (simp add: removeConflictLiteral_def Let_def)

lemma reasonOf_Some: "reasonMap s l = Some r \<Longrightarrow> reasonOf s l = r"
  by (simp add: reasonOf_def)

lemma atLevel_mono: "H \<subseteq> H' \<Longrightarrow> atLevel t H \<subseteq> atLevel t H'"
  by (auto simp: atLevel_def)

lemma card_two_other:
  assumes "finite S" and "2 \<le> card S"
  shows "\<exists>y\<in>S. y \<noteq> x"
proof (rule ccontr)
  assume "\<not> (\<exists>y\<in>S. y \<noteq> x)"
  then have "S \<subseteq> {x}" by auto
  then have "card S \<le> card {x}" by (intro card_mono) auto
  with assms(2) show False by simp
qed

text \<open>
  With a literal of the working set at the current level, \<^verbatim>\<open>cL\<close> is at the current
  level too; with a second one, \<^verbatim>\<open>cL\<close> is not the decision of that level.
\<close>

lemma explaining_cL_level:
  assumes ok: "trailOk (s_m s)" and ex: "explaining s a"
  shows "Level (s_m s) (cL s) = CurrentLevel (s_m s)"
    and "cN s \<noteq> 1 \<Longrightarrow> \<exists>ea e eb. elems (s_m s) = ea @ e # eb \<and> map Lit ea = a \<and>
           Lit e = cL s \<and> \<not> Decision e"
proof -
  let ?t = "s_m s"
  from ex have inv: "analysisInv s" and n: "1 \<le> cN s" and hL: "Negate (cL s) \<in> cH s"
    and al: "\<forall>l\<in>cH s. Negate l \<in> set a \<union> {cL s}"
    by (simp_all add: explaining_def)
  from ex obtain b where sp: "lits ?t = a @ cL s # b"
    by (auto simp: explaining_def)
  from lits_split_elems[OF sp] obtain ea e eb where
    el: "elems ?t = ea @ e # eb" and ea: "map Lit ea = a" and e: "Lit e = cL s"
    and eb: "map Lit eb = b"
    by blast
  from inv have fin: "finite (cH s)"
    and N: "cN s = int (card (atLevel ?t (cH s)))"
    by (simp_all add: analysisInv_def)
  have f2: "finite (atLevel ?t (cH s))"
    using fin atLevel_subset by (rule rev_finite_subset)
  have cur: "CurrentLevel ?t = decisions ea + (if Decision e then 1 else 0) + decisions eb"
    by (simp add: CurrentLevel_def DecisionsLen_decisions el)
  have nin: "\<bar>cL s\<bar> \<notin> evars ea"
  proof -
    from ok sp have "distinct (map abs (a @ cL s # b))" by (simp add: trailOk_def)
    then have "\<bar>cL s\<bar> \<notin> abs ` set a" by auto
    then show ?thesis by (simp add: evars_map_Lit ea)
  qed
  have lev: "Level ?t (cL s) = decisions ea + (if Decision e then 1 else 0)"
    using nin e by (simp add: Level_def el levelFrom_append Let_def)
  have before: "\<And>l. l \<in> atLevel ?t (cH s) \<Longrightarrow> Negate l \<in> set a \<Longrightarrow>
      CurrentLevel ?t \<le> decisions ea"
  proof -
    fix l assume l: "l \<in> atLevel ?t (cH s)" and la: "Negate l \<in> set a"
    from la have "\<bar>l\<bar> \<in> evars ea"
      by (auto simp: evars_map_Lit ea Negate_def intro!: image_eqI[of _ _ "- l"])
    from levelFrom_bounds[OF this, of 0]
    have "levelFrom 0 (ea @ e # eb) \<bar>l\<bar> \<le> decisions ea"
      using \<open>\<bar>l\<bar> \<in> evars ea\<close> by (simp add: levelFrom_append)
    then have "Level ?t l \<le> decisions ea"
      by (simp add: Level_def el)
    with l show "CurrentLevel ?t \<le> decisions ea"
      by (simp add: atLevel_def)
  qed
  from n N have "atLevel ?t (cH s) \<noteq> {}" by auto
  then obtain l0 where l0: "l0 \<in> atLevel ?t (cH s)" by blast
  then have l0H: "l0 \<in> cH s" using atLevel_subset by blast
  show "Level ?t (cL s) = CurrentLevel ?t"
  proof (cases "Negate l0 = cL s")
    case True
    then have "cL s = Negate l0" by simp
    with l0 show ?thesis by (simp add: atLevel_def)
  next
    case False
    with al l0H have "Negate l0 \<in> set a" by auto
    from before[OF l0 this] cur lev Level_le_CurrentLevel[of ?t "cL s"] show ?thesis
      by (simp split: if_splits)
  qed
  show "\<exists>ea e eb. elems (s_m s) = ea @ e # eb \<and> map Lit ea = a \<and>
           Lit e = cL s \<and> \<not> Decision e" if "cN s \<noteq> 1"
  proof -
    from that n N have "2 \<le> card (atLevel ?t (cH s))" by linarith
    from card_two_other[OF f2 this, of "Negate (cL s)"] obtain l1 where
      l1: "l1 \<in> atLevel ?t (cH s)" and ne: "l1 \<noteq> Negate (cL s)"
      by blast
    from l1 have "l1 \<in> cH s" using atLevel_subset by blast
    moreover from ne have "Negate l1 \<noteq> cL s" by (auto simp: Negate_def)
    ultimately have "Negate l1 \<in> set a" using al by auto
    from before[OF l1 this] cur have "\<not> Decision e"
      by (simp split: if_splits)
    with el ea e show ?thesis by blast
  qed
qed


lemma reasonsOk_same:
  "s_m s' = s_m s \<Longrightarrow> reasonMap s' = reasonMap s \<Longrightarrow> reasonsOk s' = reasonsOk s"
  by (simp add: reasonsOk_def)

lemma explain_step:
  assumes ok: "trailOk (s_m s)" and ro: "reasonsOk s" and ex: "explaining s a"
    and n1: "cN s \<noteq> 1"
  shows "\<exists>a'. explaining (applyExplain (cL s) s) a' \<and> length a' < length a"
proof -
  let ?t = "s_m s"
  let ?L = "cL s"
  from ex have inv: "analysisInv s" and n: "1 \<le> cN s" and hL: "Negate ?L \<in> cH s"
    and al: "\<forall>l\<in>cH s. Negate l \<in> set a \<union> {?L}"
    by (simp_all add: explaining_def)
  from ex obtain b where sp: "lits ?t = a @ ?L # b"
    by (auto simp: explaining_def)
  from explaining_cL_level(2)[OF ok ex n1] obtain ea e eb where
    el: "elems ?t = ea @ e # eb" and ea: "map Lit ea = a" and e: "Lit e = ?L"
    and nd: "\<not> Decision e"
    by blast
  have lv: "Level ?t ?L = CurrentLevel ?t"
    by (rule explaining_cL_level(1)[OF ok ex])
  from ro el nd obtain r where r: "reasonMap s ?L = Some r" and Lr: "?L \<in> set r"
    and rf: "\<forall>l\<in>set r. l \<noteq> ?L \<longrightarrow> ValueLit \<lparr>elems = ea\<rparr> l = TriFalse"
    unfolding reasonsOk_def e[symmetric] by blast
  text \<open>The literals of the reason other than \<^verbatim>\<open>cL\<close>: falsified, before \<^verbatim>\<open>cL\<close>.\<close>
  have rf1: "\<forall>l\<in>set r. l \<noteq> ?L \<longrightarrow> ValueLit ?t l = TriFalse"
    using rf falsified_prefix[OF ok el] by blast
  have rf2: "\<forall>l\<in>set r. l \<noteq> ?L \<longrightarrow> Negate l \<in> set a"
    using rf by (auto simp: ValueLit_TriFalse lits_def ea)
  text \<open>Removing the negation of \<^verbatim>\<open>cL\<close>.\<close>
  let ?s1 = "removeConflictLiteral (Negate ?L) s"
  have i1: "analysisInv ?s1"
    by (rule analysisInv_remove[OF inv hL])
  have H1: "cH ?s1 = cH s - {Negate ?L}"
    by (rule cH_removeConflictLiteral)
  have N1: "cN ?s1 = cN s - 1"
    using lv by (intro cN_removeConflictLiteral) simp
  have m1: "s_m ?s1 = ?t" by simp
  have r1: "reasonOf ?s1 ?L = r"
    using r by (simp add: reasonOf_def)
  text \<open>Adding the other literals of the reason.\<close>
  let ?s2 = "fold (\<lambda>l s'. if l \<noteq> ?L then addConflictLiteral l s' else s') r ?s1"
  have "\<forall>l\<in>set r. l \<noteq> ?L \<longrightarrow> ValueLit (s_m ?s1) l = TriFalse"
    using rf1 by (simp only: m1)
  from fold_add_analysis[OF i1 this]
  have i2: "analysisInv ?s2"
    and H2: "cH ?s2 = cH ?s1 \<union> {l \<in> set r. l \<noteq> ?L \<and> 0 < Level (s_m ?s1) l}"
    by blast+
  have m2: "s_m ?s2 = ?t"
    using fold_add_sameProblem[of ?s1 "\<lambda>l. l \<noteq> ?L" r] by (simp add: sameProblem_def)
  have sub: "cH ?s1 \<subseteq> cH ?s2"
    using H2 by auto
  have fin2: "finite (cH ?s2)"
    using i2 by (simp add: analysisInv_def)
  have "card (atLevel ?t (cH ?s1)) \<le> card (atLevel ?t (cH ?s2))"
    by (intro card_mono atLevel_mono sub rev_finite_subset[OF fin2 atLevel_subset])
  moreover have "cN ?s1 = int (card (atLevel ?t (cH ?s1)))"
    using i1 by (simp add: analysisInv_def)
  moreover have "cN ?s2 = int (card (atLevel ?t (cH ?s2)))"
    using i2 by (simp add: analysisInv_def m2)
  ultimately have N2: "1 \<le> cN ?s2"
    using N1 n n1 by linarith
  have before: "\<forall>l\<in>cH ?s2. Negate l \<in> set a"
  proof
    fix l assume "l \<in> cH ?s2"
    then consider "l \<in> cH s" "l \<noteq> Negate ?L" | "l \<in> set r" "l \<noteq> ?L"
      using H2 H1 by auto
    then show "Negate l \<in> set a"
    proof cases
      case 1
      from 1(2) have "Negate l \<noteq> ?L" by (auto simp: Negate_def)
      with al 1(1) show ?thesis by auto
    next
      case 2
      with rf2 show ?thesis by blast
    qed
  qed
  text \<open>The new \<^verbatim>\<open>cL\<close>.\<close>
  have ae: "applyExplain ?L s = setLastAsserted ?s2"
    by (simp add: applyExplain_def Let_def r1)
  from explaining_setLast[OF i2 N2] obtain a' where ex': "explaining (setLastAsserted ?s2) a'"
    by blast
  then obtain b' where sp': "lits ?t = a' @ cL (setLastAsserted ?s2) # b'"
    and h': "Negate (cL (setLastAsserted ?s2)) \<in> cH ?s2"
    by (auto simp: explaining_def m2)
  from before h' have "cL (setLastAsserted ?s2) \<in> set a"
    by force
  from earlier_split[OF trailOk_distinct[OF ok] sp sp' this] ex' show ?thesis
    by (auto simp: ae)
qed


section \<open>Conflict analysis ends\<close>

lemma explainLoop_ends:
  assumes "trailOk (s_m s)" and "reasonsOk s" and "explaining s a"
  shows "\<exists>s' a'. explainLoop s = Some s' \<and> explaining s' a' \<and> cN s' = 1"
  using assms
proof (induction "length a" arbitrary: s a rule: less_induct)
  case less
  show ?case
  proof (cases "cN s = 1")
    case True
    then have "explainLoop s = Some s"
      by (subst explainLoop.simps) simp
    with less.prems(3) True show ?thesis by blast
  next
    case False
    let ?s1 = "applyExplain (cL s) s"
    from explain_step[OF less.prems False] obtain a' where
      ex': "explaining ?s1 a'" and sh: "length a' < length a"
      by blast
    note same = sameProblem_fields[OF applyExplain_same[of s "cL s"]]
    have ok': "trailOk (s_m ?s1)"
      using less.prems(1) by (simp only: same)
    have ro': "reasonsOk ?s1"
      using less.prems(2) reasonsOk_same[OF same(1) same(4)] by simp
    from less.hyps[OF sh ok' ro' ex'] obtain s' a'' where
      "explainLoop ?s1 = Some s'" "explaining s' a''" "cN s' = 1"
      by blast
    moreover have "explainLoop s = explainLoop ?s1"
      using False by (subst explainLoop.simps) simp
    ultimately show ?thesis by auto
  qed
qed

text \<open>Before a decision is taken the trail falsifies no clause of the formula.\<close>

definition decisionsOk :: "solver \<Rightarrow> bool" where
  "decisionsOk s \<longleftrightarrow>
     (\<forall>pre e post. elems (s_m s) = pre @ e # post \<and> Decision e \<longrightarrow>
        IsFormulaFalse \<lparr>elems = pre\<rparr> (s_f s) = None)"

lemma find_None_set: "find P xs = None \<longleftrightarrow> (\<forall>x\<in>set xs. \<not> P x)"
  by (induction xs) auto

lemma IsClauseFalse_iff: "IsClauseFalse t cl \<longleftrightarrow> (\<forall>l\<in>set cl. ValueLit t l = TriFalse)"
  by (simp add: IsClauseFalse_def list_all_iff)

lemma lit_in_evars: "x \<in> set (map Lit es) \<Longrightarrow> \<bar>x\<bar> \<in> evars es"
  by (auto simp: evars_def)

lemma neg_in_evars: "Negate l \<in> set (map Lit es) \<Longrightarrow> \<bar>l\<bar> \<in> evars es"
  using lit_in_evars[of "Negate l" es] by simp

lemma evars_cases: "\<bar>l\<bar> \<in> evars es \<Longrightarrow> l \<in> set (map Lit es) \<or> Negate l \<in> set (map Lit es)"
proof -
  assume "\<bar>l\<bar> \<in> evars es"
  then obtain e where e: "e \<in> set es" "\<bar>Lit e\<bar> = \<bar>l\<bar>"
    unfolding evars_def by force
  then have "Lit e = l \<or> Lit e = - l" by (simp add: abs_eq_iff)
  with e(1) show ?thesis
    unfolding Negate_def by (metis image_eqI list.set_map)
qed

lemma conflict_at_current_level:
  assumes dk: "decisionsOk s" and cf: "IsFormulaFalse (s_m s) (s_f s) = Some cc"
    and pos: "0 < DecisionsLen (s_m s)"
  shows "cc \<in> set (s_f s)" and "IsClauseFalse (s_m s) cc"
    and "\<exists>l\<in>set cc. Level (s_m s) l = CurrentLevel (s_m s)"
proof -
  let ?t = "s_m s"
  from cf show cm: "cc \<in> set (s_f s)" and fl: "IsClauseFalse ?t cc"
    by (auto simp: IsFormulaFalse_def dest: find_Some_set)
  from pos have "\<exists>e\<in>set (elems ?t). Decision e"
    by (auto simp: DecisionsLen_def filter_empty_conv)
  from split_list_last_prop[OF this] obtain pre d post where
    el: "elems ?t = pre @ d # post" and d: "Decision d" and np: "\<forall>e\<in>set post. \<not> Decision e"
    by blast
  from np have dp: "decisions post = 0"
    by (simp add: decisions_def)
  have cur: "CurrentLevel ?t = Suc (decisions pre)"
    using d dp by (simp add: CurrentLevel_def DecisionsLen_decisions el)
  from dk el d have "IsFormulaFalse \<lparr>elems = pre\<rparr> (s_f s) = None"
    unfolding decisionsOk_def by blast
  with cm have "\<not> IsClauseFalse \<lparr>elems = pre\<rparr> cc"
    by (simp add: IsFormulaFalse_def find_None_set)
  then obtain l where l: "l \<in> set cc" and nf: "ValueLit \<lparr>elems = pre\<rparr> l \<noteq> TriFalse"
    by (auto simp: IsClauseFalse_iff)
  from fl l have f: "l \<notin> set (lits ?t)" "Negate l \<in> set (lits ?t)"
    by (simp_all add: IsClauseFalse_iff ValueLit_TriFalse)
  from f(1) have l1: "l \<notin> set (map Lit pre)"
    by (simp add: lits_def el)
  with nf have l2: "Negate l \<notin> set (map Lit pre)"
    by (simp add: ValueLit_TriFalse lits_def)
  have nin: "\<bar>l\<bar> \<notin> evars pre"
    using evars_cases[of l pre] l1 l2 by blast
  from f(2) l2 have "Negate l \<in> set (map Lit (d # post))"
    by (auto simp: lits_def el)
  then have "\<bar>l\<bar> \<in> evars (d # post)"
    by (rule neg_in_evars)
  from levelFrom_decision_first[OF d this, of "decisions pre"]
  have "Suc (decisions pre) \<le> Level ?t l"
    using nin by (simp add: Level_def el levelFrom_append del: levelFrom.simps)
  with cur Level_le_CurrentLevel[of ?t l] have "Level ?t l = CurrentLevel ?t"
    by simp
  with l show "\<exists>l\<in>set cc. Level ?t l = CurrentLevel ?t" by blast
qed

lemma fold_add_analysis_all:
  assumes "analysisInv s" and "\<forall>l\<in>set ls. ValueLit (s_m s) l = TriFalse"
  shows "analysisInv (fold addConflictLiteral ls s) \<and>
         cH (fold addConflictLiteral ls s) = cH s \<union> {l \<in> set ls. 0 < Level (s_m s) l}"
  using fold_add_analysis[of s ls "\<lambda>_. True"] assms by simp

lemma explaining_applyConflict:
  assumes fl: "IsClauseFalse (s_m s) cc"
    and cur: "\<exists>l\<in>set cc. Level (s_m s) l = CurrentLevel (s_m s)"
    and pos: "0 < CurrentLevel (s_m s)"
  shows "\<exists>a. explaining (applyConflict cc s) a"
proof -
  define s0 where "s0 = s\<lparr>cH := {}, cP := {}, cN := 0\<rparr>"
  define s1 where "s1 = fold addConflictLiteral cc s0"
  have m0: "s_m s0 = s_m s" and H0: "cH s0 = {}"
    by (simp_all add: s0_def)
  have i0: "analysisInv s0"
    by (simp add: s0_def analysisInv_def atLevel_def belowLevel_def)
  have "\<forall>l\<in>set cc. ValueLit (s_m s0) l = TriFalse"
    using fl by (simp add: IsClauseFalse_iff m0)
  from fold_add_analysis_all[OF i0 this]
  have i1: "analysisInv s1"
    and H1: "cH s1 = {l \<in> set cc. 0 < Level (s_m s) l}"
    by (simp_all add: s1_def m0 H0)
  have m1: "s_m s1 = s_m s"
    using fold_add_sameProblem'[of s0 cc] by (simp add: sameProblem_def s1_def m0)
  from cur pos obtain l where "l \<in> set cc" "Level (s_m s) l = CurrentLevel (s_m s)"
    "0 < Level (s_m s) l"
    by auto
  then have "l \<in> atLevel (s_m s) (cH s1)"
    using H1 by (simp add: atLevel_def)
  moreover have "finite (atLevel (s_m s) (cH s1))"
    using i1 atLevel_subset by (auto simp: analysisInv_def intro: rev_finite_subset)
  ultimately have "0 < card (atLevel (s_m s) (cH s1))"
    by (auto simp: card_gt_0_iff)
  moreover have "cN s1 = int (card (atLevel (s_m s) (cH s1)))"
    using i1 by (simp add: analysisInv_def m1)
  ultimately have N1: "1 \<le> cN s1" by linarith
  have "applyConflict cc s = setLastAsserted s1"
    by (simp add: applyConflict_def s1_def s0_def)
  with explaining_setLast[OF i1 N1] show ?thesis by simp
qed

section \<open>The state at the end of conflict analysis\<close>

lemma fold_max:
  "fold (\<lambda>l level. let v = g l in if v > level then v else level) xs (k::nat) =
     Max (insert k (g ` set xs))"
proof (induction xs arbitrary: k)
  case Nil
  then show ?case by simp
next
  case (Cons x xs)
  have "Max (insert (max k (g x)) (g ` set xs)) = Max (insert k (insert (g x) (g ` set xs)))"
  proof (cases "set xs = {}")
    case True
    then show ?thesis by (simp add: max.commute)
  next
    case False
    then have ne: "g ` set xs \<noteq> {}" by simp
    have "Max (insert (max k (g x)) (g ` set xs)) = max (max k (g x)) (Max (g ` set xs))"
      using ne by simp
    also have "\<dots> = max k (max (g x) (Max (g ` set xs)))"
      by (simp add: max.assoc)
    also have "\<dots> = Max (insert k (insert (g x) (g ` set xs)))"
      using ne by simp
    finally show ?thesis .
  qed
  moreover have "(if g x > k then g x else k) = max k (g x)"
    by (simp add: max_def)
  ultimately show ?case
    using Cons.IH[of "max k (g x)"] by (simp add: Let_def)
qed

lemma set_m_on_trail: "l \<in> set (lits t) \<Longrightarrow> set_m t l = Level t l"
  by (simp add: set_m_def)

text \<open>What an analysis that has ended with \<^verbatim>\<open>cN\<close> at 1 leaves.\<close>

lemma analysed_facts:
  assumes ok: "trailOk (s_m s)" and ex: "explaining s a" and n1: "cN s = 1"
  shows "Level (s_m s) (cL s) = CurrentLevel (s_m s)"
    and "0 < CurrentLevel (s_m s)"
    and "cP s = cH s - {Negate (cL s)}"
    and "finite (cP s)"
    and "\<forall>l\<in>cP s. ValueLit (s_m s) l = TriFalse \<and> 0 < Level (s_m s) l \<and>
           Level (s_m s) l < CurrentLevel (s_m s)"
proof -
  let ?t = "s_m s"
  from ex have inv: "analysisInv s" and hL: "Negate (cL s) \<in> cH s"
    by (simp_all add: explaining_def)
  from inv have fin: "finite (cH s)"
    and fa: "\<forall>l\<in>cH s. ValueLit ?t l = TriFalse \<and> 0 < Level ?t l"
    and P: "cP s = belowLevel ?t (cH s)"
    and N: "cN s = int (card (atLevel ?t (cH s)))"
    by (simp_all add: analysisInv_def)
  show lv: "Level ?t (cL s) = CurrentLevel ?t"
    by (rule explaining_cL_level(1)[OF ok ex])
  from fa hL have "0 < Level ?t (Negate (cL s))" by blast
  with lv show "0 < CurrentLevel ?t" by simp
  from hL lv have mem: "Negate (cL s) \<in> atLevel ?t (cH s)"
    by (simp add: atLevel_def)
  from N n1 have "card (atLevel ?t (cH s)) = 1" by simp
  then obtain x where "atLevel ?t (cH s) = {x}"
    by (auto simp: card_1_singleton_iff)
  with mem have at: "atLevel ?t (cH s) = {Negate (cL s)}" by auto
  from atLevel_below[of ?t "cH s"] at P show cp: "cP s = cH s - {Negate (cL s)}"
    by auto
  from fin cp show "finite (cP s)" by simp
  show "\<forall>l\<in>cP s. ValueLit ?t l = TriFalse \<and> 0 < Level ?t l \<and> Level ?t l < CurrentLevel ?t"
  proof
    fix l assume l: "l \<in> cP s"
    with cp have lH: "l \<in> cH s" by simp
    from l P have "Level ?t l \<noteq> CurrentLevel ?t" by (simp add: belowLevel_def)
    with Level_le_CurrentLevel[of ?t l] have "Level ?t l < CurrentLevel ?t" by simp
    with fa lH show "ValueLit ?t l = TriFalse \<and> 0 < Level ?t l \<and> Level ?t l < CurrentLevel ?t"
      by blast
  qed
qed

lemma backjumpLevel_Max:
  assumes "enumerates ord" and "finite (cP s)"
  shows "backjumpLevel ord s = Max (insert 0 ((\<lambda>l. set_m (s_m s) (Negate l)) ` cP s))"
  unfolding backjumpLevel_def fold_max enumerates_set[OF assms] ..

lemma Max_less_bound:
  assumes "finite S" and "\<forall>x\<in>S. f x < (k::nat)" and "0 < k"
  shows "Max (insert 0 (f ` S)) < k"
  using assms by (subst Max_less_iff) auto

text \<open>Trimming keeps the literals at or below the level and drops the variables above it.\<close>

lemma lits_TrimToLevel_subset: "set (lits (TrimToLevel t k)) \<subseteq> set (lits t)"
proof -
  from trimElems_prefix[of "elems t" k] obtain rest where
    "elems t = trimElems k (elems t) @ rest" by blast
  then have "set (trimElems k (elems t)) \<subseteq> set (elems t)"
    by (metis Un_upper1 set_append)
  then show ?thesis
    by (auto simp: lits_def TrimToLevel_def)
qed

lemma tvars_TrimToLevel:
  "trailOk t \<Longrightarrow> v \<in> tvars (TrimToLevel t k) \<longleftrightarrow> v \<in> tvars t \<and> levelFrom 0 (elems t) v \<le> k"
  using evars_trimElems[of "elems t" v k]
  by (simp add: tvars_evars TrimToLevel_def trailOk_elems)

lemma lit_TrimToLevel:
  assumes ok: "trailOk t" and l: "l \<in> set (lits t)" and lv: "Level t l \<le> k"
  shows "l \<in> set (lits (TrimToLevel t k))"
proof -
  from l have "\<bar>l\<bar> \<in> tvars t" by (auto simp: tvars_def)
  with lv have "\<bar>l\<bar> \<in> tvars (TrimToLevel t k)"
    by (simp add: tvars_TrimToLevel[OF ok] Level_def)
  then obtain x where x: "x \<in> set (lits (TrimToLevel t k))" "\<bar>x\<bar> = \<bar>l\<bar>"
    unfolding tvars_def by force
  with lits_TrimToLevel_subset[of t k] have "x \<in> set (lits t)" by blast
  from trailOk_inj[OF ok this l x(2)] x(1) show ?thesis by simp
qed

lemma trailOk_TrimToLevel: "trailOk t \<Longrightarrow> trailOk (TrimToLevel t k)"
proof -
  assume ok: "trailOk t"
  from trimElems_prefix[of "elems t" k] obtain rest where
    e: "elems t = trimElems k (elems t) @ rest" by blast
  from ok have "distinct (map (\<lambda>e. \<bar>Lit e\<bar>) (trimElems k (elems t) @ rest))"
    by (simp only: trailOk_elems e[symmetric])
  then show ?thesis
    by (simp add: trailOk_elems TrimToLevel_def)
qed

lemma falsified_TrimToLevel:
  assumes ok: "trailOk t" and f: "ValueLit t l = TriFalse" and lv: "Level t l \<le> k"
  shows "ValueLit (TrimToLevel t k) l = TriFalse"
proof -
  from f have n: "l \<notin> set (lits t)" and p: "Negate l \<in> set (lits t)"
    by (simp_all add: ValueLit_TriFalse)
  from lv have "Level t (Negate l) \<le> k" by simp
  from lit_TrimToLevel[OF ok p this] n lits_TrimToLevel_subset[of t k] show ?thesis
    by (auto simp: ValueLit_TriFalse)
qed

lemma unassigned_TrimToLevel:
  assumes ok: "trailOk t" and lv: "k < Level t l"
  shows "ValueLit (TrimToLevel t k) l = Undef" and "ValueLit (TrimToLevel t k) (Negate l) = Undef"
proof -
  from lv have n: "\<bar>l\<bar> \<notin> tvars (TrimToLevel t k)"
    by (simp add: tvars_TrimToLevel[OF ok] Level_def)
  then have "l \<notin> set (lits (TrimToLevel t k)) \<and> Negate l \<notin> set (lits (TrimToLevel t k))"
    unfolding tvars_def by (metis abs_Negate image_eqI)
  then show "ValueLit (TrimToLevel t k) l = Undef" "ValueLit (TrimToLevel t k) (Negate l) = Undef"
    by (simp_all add: ValueLit_Undef)
qed

section \<open>The invariants are kept\<close>

definition trailInv :: "solver \<Rightarrow> bool" where
  "trailInv s \<longleftrightarrow> trailOk (s_m s) \<and> reasonsOk s \<and> decisionsOk s"

text \<open>
  The trail assigns only variables of the problem, the formula and the override literals
  mention only those, and they are finitely many numbers that are not negative.
\<close>

definition varsOk :: "solver \<Rightarrow> bool" where
  "varsOk s \<longleftrightarrow>
     finite (vars s) \<and> (\<forall>v\<in>vars s. 0 \<le> v) \<and> tvars (s_m s) \<subseteq> vars s \<and>
     fvars (s_f s) \<subseteq> vars s \<and> abs ` set (decideLiterals s) \<subseteq> vars s"

lemma snoc_split:
  "xs @ [x] = pre @ e # post \<longleftrightarrow>
     (pre = xs \<and> e = x \<and> post = []) \<or> (\<exists>post'. post = post' @ [x] \<and> xs = pre @ e # post')"
proof (cases post rule: rev_cases)
  case Nil
  then show ?thesis by auto
next
  case (snoc post' y)
  then show ?thesis by auto
qed

lemma ValueLit_elems [simp]: "ValueLit \<lparr>elems = elems t\<rparr> l = ValueLit t l"
  by (simp add: ValueLit_def lits_def)

lemma IsFormulaFalse_elems [simp]: "IsFormulaFalse \<lparr>elems = elems t\<rparr> fm = IsFormulaFalse t fm"
  by (simp add: IsFormulaFalse_def IsClauseFalse_def[abs_def])

lemma reasonsOk_snoc:
  assumes ro: "reasonsOk s" and el: "elems (s_m s') = elems (s_m s) @ [e]"
    and rm: "\<forall>x\<in>set (lits (s_m s)). reasonMap s' x = reasonMap s x"
    and new: "\<not> Decision e \<longrightarrow>
       (\<exists>r. reasonMap s' (Lit e) = Some r \<and> Lit e \<in> set r \<and>
            (\<forall>l\<in>set r. l \<noteq> Lit e \<longrightarrow> ValueLit (s_m s) l = TriFalse))"
  shows "reasonsOk s'"
  unfolding reasonsOk_def
proof (intro allI impI)
  fix pre e' post
  assume a: "elems (s_m s') = pre @ e' # post \<and> \<not> Decision e'"
  then have "elems (s_m s) @ [e] = pre @ e' # post" by (simp add: el)
  then consider (last) "pre = elems (s_m s)" "e' = e" "post = []"
    | (old) post' where "post = post' @ [e]" "elems (s_m s) = pre @ e' # post'"
    unfolding snoc_split by blast
  then show "\<exists>r. reasonMap s' (Lit e') = Some r \<and> Lit e' \<in> set r \<and>
             (\<forall>l\<in>set r. l \<noteq> Lit e' \<longrightarrow> ValueLit \<lparr>elems = pre\<rparr> l = TriFalse)"
  proof cases
    case last
    with new a show ?thesis by simp
  next
    case old
    from old(2) have "Lit e' \<in> set (lits (s_m s))" by (simp add: lits_def)
    with rm have "reasonMap s' (Lit e') = reasonMap s (Lit e')" by blast
    moreover from ro old(2) a have "\<exists>r. reasonMap s (Lit e') = Some r \<and> Lit e' \<in> set r \<and>
             (\<forall>l\<in>set r. l \<noteq> Lit e' \<longrightarrow> ValueLit \<lparr>elems = pre\<rparr> l = TriFalse)"
      unfolding reasonsOk_def by blast
    ultimately show ?thesis by simp
  qed
qed

lemma reasonsOk_prefix:
  assumes ro: "reasonsOk s" and el: "elems (s_m s) = elems (s_m s') @ rest"
    and rm: "\<forall>x\<in>set (lits (s_m s')). reasonMap s' x = reasonMap s x"
  shows "reasonsOk s'"
  unfolding reasonsOk_def
proof (intro allI impI)
  fix pre e' post
  assume a: "elems (s_m s') = pre @ e' # post \<and> \<not> Decision e'"
  then have "elems (s_m s) = pre @ e' # (post @ rest)" by (simp add: el)
  with ro a have "\<exists>r. reasonMap s (Lit e') = Some r \<and> Lit e' \<in> set r \<and>
             (\<forall>l\<in>set r. l \<noteq> Lit e' \<longrightarrow> ValueLit \<lparr>elems = pre\<rparr> l = TriFalse)"
    unfolding reasonsOk_def by blast
  moreover from a have "Lit e' \<in> set (lits (s_m s'))" by (simp add: lits_def)
  with rm have "reasonMap s' (Lit e') = reasonMap s (Lit e')" by blast
  ultimately show "\<exists>r. reasonMap s' (Lit e') = Some r \<and> Lit e' \<in> set r \<and>
             (\<forall>l\<in>set r. l \<noteq> Lit e' \<longrightarrow> ValueLit \<lparr>elems = pre\<rparr> l = TriFalse)"
    by simp
qed

lemma decisionsOk_snoc:
  assumes dk: "decisionsOk s" and el: "elems (s_m s') = elems (s_m s) @ [e]"
    and f: "s_f s' = s_f s"
    and new: "Decision e \<longrightarrow> IsFormulaFalse (s_m s) (s_f s) = None"
  shows "decisionsOk s'"
  unfolding decisionsOk_def
proof (intro allI impI)
  fix pre e' post
  assume a: "elems (s_m s') = pre @ e' # post \<and> Decision e'"
  then have "elems (s_m s) @ [e] = pre @ e' # post" by (simp add: el)
  then consider (last) "pre = elems (s_m s)" "e' = e" "post = []"
    | (old) post' where "post = post' @ [e]" "elems (s_m s) = pre @ e' # post'"
    unfolding snoc_split by blast
  then show "IsFormulaFalse \<lparr>elems = pre\<rparr> (s_f s') = None"
  proof cases
    case last
    with new a show ?thesis by (simp add: f)
  next
    case old
    with dk a show ?thesis unfolding decisionsOk_def f by blast
  qed
qed

lemma varsOk_fields:
  assumes "varsOk s"
  shows "finite (vars s)" "\<forall>v\<in>vars s. 0 \<le> v" "tvars (s_m s) \<subseteq> vars s"
    "fvars (s_f s) \<subseteq> vars s" "abs ` set (decideLiterals s) \<subseteq> vars s"
  using assms by (simp_all add: varsOk_def)

lemma trailOk_Assert:
  "trailOk t \<Longrightarrow> ValueLit t l = Undef \<Longrightarrow> trailOk (Assert t l d)"
  using ValueLit_Undef_tvars[of t l] by (simp add: trailOk_def tvars_def)

lemma elems_Assert [simp]: "elems (Assert t l d) = elems t @ [\<lparr>Lit = l, Decision = d\<rparr>]"
  by (simp add: Assert_def)

text \<open>A propagated unit literal keeps the invariants.\<close>

lemma trailInv_pushUnit:
  assumes inv: "trailInv s" and fu: "firstUnit (s_m s) (s_f s) = Some (cl, l)"
  shows "trailInv (pushUnit cl l s)"
proof -
  from firstUnit_Some[OF fu] have cm: "cl \<in> set (s_f s)" and lc: "l \<in> set cl"
    and u: "IsUnit (s_m s) cl l"
    by simp_all
  from u have un: "ValueLit (s_m s) l = Undef"
    and oth: "\<forall>l'\<in>set cl. l' \<noteq> l \<longrightarrow> ValueLit (s_m s) l' = TriFalse"
    by (auto simp: IsUnit_def list_all_iff)
  from un have nl: "l \<notin> set (lits (s_m s))" by (simp add: ValueLit_Undef)
  from inv have ok: "trailOk (s_m s)" and ro: "reasonsOk s" and dk: "decisionsOk s"
    by (simp_all add: trailInv_def)
  have 1: "trailOk (s_m (pushUnit cl l s))"
    using trailOk_Assert[OF ok un] by simp
  have 2: "reasonsOk (pushUnit cl l s)"
  proof (rule reasonsOk_snoc[OF ro, where e = "\<lparr>Lit = l, Decision = False\<rparr>"])
    show "elems (s_m (pushUnit cl l s)) = elems (s_m s) @ [\<lparr>Lit = l, Decision = False\<rparr>]"
      by simp
    show "\<forall>x\<in>set (lits (s_m s)). reasonMap (pushUnit cl l s) x = reasonMap s x"
      using nl by auto
    show "\<not> Decision \<lparr>Lit = l, Decision = False\<rparr> \<longrightarrow>
       (\<exists>r. reasonMap (pushUnit cl l s) (Lit \<lparr>Lit = l, Decision = False\<rparr>) = Some r \<and>
            Lit \<lparr>Lit = l, Decision = False\<rparr> \<in> set r \<and>
            (\<forall>l'\<in>set r. l' \<noteq> Lit \<lparr>Lit = l, Decision = False\<rparr> \<longrightarrow> ValueLit (s_m s) l' = TriFalse))"
      using lc oth by simp
  qed
  have 3: "decisionsOk (pushUnit cl l s)"
    by (rule decisionsOk_snoc[OF dk, where e = "\<lparr>Lit = l, Decision = False\<rparr>"]) simp_all
  from 1 2 3 show ?thesis by (simp add: trailInv_def)
qed

lemma varsOk_pushUnit:
  assumes inv: "varsOk s" and fu: "firstUnit (s_m s) (s_f s) = Some (cl, l)"
  shows "varsOk (pushUnit cl l s)"
proof -
  from firstUnit_Some[OF fu] have "\<bar>l\<bar> \<in> fvars (s_f s)"
    by (auto simp: fvars_def)
  with inv show ?thesis
    by (auto simp: varsOk_def tvars_Assert)
qed

lemma unitPropagate_inv:
  "\<exists>s'. unitPropagate s = Inr s' \<and> (trailInv s \<longrightarrow> trailInv s') \<and> (varsOk s \<longrightarrow> varsOk s')"
proof (rule unitPropagate_rule)
  show "\<And>s. firstUnit (s_m s) (s_f s) = None \<Longrightarrow>
      (trailInv s \<longrightarrow> trailInv s) \<and> (varsOk s \<longrightarrow> varsOk s)"
    by simp
  show "\<And>s cl l. firstUnit (s_m s) (s_f s) = Some (cl, l) \<Longrightarrow>
      IsFormulaFalse (s_m (pushUnit cl l s)) (s_f s) \<noteq> None \<Longrightarrow>
      (trailInv s \<longrightarrow> trailInv (pushUnit cl l s)) \<and> (varsOk s \<longrightarrow> varsOk (pushUnit cl l s))"
    using trailInv_pushUnit varsOk_pushUnit by blast
  show "\<And>s cl l s'. firstUnit (s_m s) (s_f s) = Some (cl, l) \<Longrightarrow>
      IsFormulaFalse (s_m (pushUnit cl l s)) (s_f s) = None \<Longrightarrow>
      unitPropagate (pushUnit cl l s) = Inr s' \<Longrightarrow>
      (trailInv (pushUnit cl l s) \<longrightarrow> trailInv s') \<and> (varsOk (pushUnit cl l s) \<longrightarrow> varsOk s') \<Longrightarrow>
      (trailInv s \<longrightarrow> trailInv s') \<and> (varsOk s \<longrightarrow> varsOk s')"
    using trailInv_pushUnit varsOk_pushUnit by blast
qed

section \<open>Conflict analysis and backjump on a state that keeps the invariants\<close>

lemma explaining_s_c [simp]: "explaining (s\<lparr>s_c := x\<rparr>) a = explaining s a"
  by (simp add: explaining_def analysisInv_def)

text \<open>
  On a trail that keeps the invariants, with a falsified clause and a decision level open,
  conflict analysis ends with \<^verbatim>\<open>cN\<close> at 1.
\<close>

lemma analysis_result:
  assumes inv: "trailInv s" and cf: "IsFormulaFalse (s_m s) (s_f s) = Some cc"
    and pos: "0 < DecisionsLen (s_m s)"
  shows "\<exists>s3 a. applyExplainUIP ord (applyConflict cc s) = Some s3 \<and> explaining s3 a \<and>
           cN s3 = 1 \<and> s_c s3 = ord (cP s3) @ [Negate (cL s3)] \<and> s_m s3 = s_m s \<and>
           s_f s3 = s_f s \<and> reasonMap s3 = reasonMap s \<and> vars s3 = vars s \<and>
           decideLiterals s3 = decideLiterals s \<and> result s3 = result s"
proof -
  from inv have ok: "trailOk (s_m s)" and ro: "reasonsOk s" and dk: "decisionsOk s"
    by (simp_all add: trailInv_def)
  let ?s0 = "applyConflict cc s"
  note f0 = sameProblem_fields[OF applyConflict_same[of s cc]]
  from conflict_at_current_level[OF dk cf pos]
  have fl: "IsClauseFalse (s_m s) cc" and cur: "\<exists>l\<in>set cc. Level (s_m s) l = CurrentLevel (s_m s)"
    by blast+
  from pos have "0 < CurrentLevel (s_m s)" by (simp add: CurrentLevel_def)
  from explaining_applyConflict[OF fl cur this] obtain a0 where e0: "explaining ?s0 a0"
    by blast
  have ok0: "trailOk (s_m ?s0)" using ok by (simp only: f0)
  have ro0: "reasonsOk ?s0" using ro reasonsOk_same[OF f0(1) f0(4)] by simp
  from explainLoop_ends[OF ok0 ro0 e0] obtain s1 a where
    l: "explainLoop ?s0 = Some s1" and e1: "explaining s1 a" and n1: "cN s1 = 1"
    by blast
  note f1 = sameProblem_fields[OF explainLoop_same[OF l]]
  let ?s3 = "s1\<lparr>s_c := ord (cP s1) @ [Negate (cL s1)]\<rparr>"
  have "applyExplainUIP ord ?s0 = Some ?s3"
    using l by (simp add: applyExplainUIP_def)
  moreover have "explaining ?s3 a" using e1 by simp
  moreover have "cN ?s3 = 1" using n1 by simp
  moreover have "s_c ?s3 = ord (cP ?s3) @ [Negate (cL ?s3)]" by simp
  moreover have "s_m ?s3 = s_m s" "s_f ?s3 = s_f s" "reasonMap ?s3 = reasonMap s"
    "vars ?s3 = vars s" "decideLiterals ?s3 = decideLiterals s" "result ?s3 = result s"
    by (simp_all add: f0 f1)
  ultimately show ?thesis by blast
qed

text \<open>The level the backjump goes to, and what the trimmed trail makes of the learned clause.\<close>

lemma backjump_facts:
  assumes ok: "trailOk (s_m s)" and ex: "explaining s a" and n1: "cN s = 1"
    and en: "enumerates ord"
  shows "backjumpLevel ord s = Max (insert 0 ((\<lambda>l. Level (s_m s) (Negate l)) ` cP s))"
    and "backjumpLevel ord s < CurrentLevel (s_m s)"
    and "ValueLit (TrimToLevel (s_m s) (backjumpLevel ord s)) (Negate (cL s)) = Undef"
    and "\<forall>l\<in>cP s. ValueLit (TrimToLevel (s_m s) (backjumpLevel ord s)) l = TriFalse"
    and "Negate (cL s) \<notin> cP s"
proof -
  let ?t = "s_m s"
  note F = analysed_facts[OF ok ex n1]
  have sm: "\<forall>l\<in>cP s. set_m ?t (Negate l) = Level ?t (Negate l)"
    using F(5) by (auto simp: ValueLit_TriFalse set_m_on_trail)
  then have "(\<lambda>l. set_m ?t (Negate l)) ` cP s = (\<lambda>l. Level ?t (Negate l)) ` cP s"
    by (intro image_cong) simp_all
  then show lv: "backjumpLevel ord s = Max (insert 0 ((\<lambda>l. Level ?t (Negate l)) ` cP s))"
    by (simp add: backjumpLevel_Max[OF en F(4)])
  have "Max (insert 0 ((\<lambda>l. Level ?t (Negate l)) ` cP s)) < CurrentLevel ?t"
    using F(4) F(5) F(2) by (intro Max_less_bound) auto
  with lv show lt: "backjumpLevel ord s < CurrentLevel ?t" by simp
  from lt F(1) have "backjumpLevel ord s < Level ?t (cL s)" by simp
  from unassigned_TrimToLevel(2)[OF ok this]
  show "ValueLit (TrimToLevel ?t (backjumpLevel ord s)) (Negate (cL s)) = Undef" .
  show "\<forall>l\<in>cP s. ValueLit (TrimToLevel ?t (backjumpLevel ord s)) l = TriFalse"
  proof
    fix l assume l: "l \<in> cP s"
    then have "Level ?t (Negate l) \<in> insert 0 ((\<lambda>l. Level ?t (Negate l)) ` cP s)" by simp
    moreover have "finite (insert 0 ((\<lambda>l. Level ?t (Negate l)) ` cP s))"
      using F(4) by simp
    ultimately have "Level ?t (Negate l) \<le> backjumpLevel ord s"
      unfolding lv by (rule Max_ge[rotated])
    then have "Level ?t l \<le> backjumpLevel ord s" by simp
    with falsified_TrimToLevel[OF ok] F(5) l
    show "ValueLit (TrimToLevel ?t (backjumpLevel ord s)) l = TriFalse" by blast
  qed
  show "Negate (cL s) \<notin> cP s"
    using F(3) by simp
qed

lemma IsFormulaFalse_None: "IsFormulaFalse t fm = None \<longleftrightarrow> (\<forall>cl\<in>set fm. \<not> IsClauseFalse t cl)"
  by (simp add: IsFormulaFalse_def find_None_set)

lemma decisionsOk_prefix:
  assumes dk: "decisionsOk s" and el: "elems (s_m s) = elems (s_m s') @ rest"
    and f: "set (s_f s') \<subseteq> insert c (set (s_f s))"
    and c: "\<forall>pre e post. elems (s_m s') = pre @ e # post \<longrightarrow> \<not> IsClauseFalse \<lparr>elems = pre\<rparr> c"
  shows "decisionsOk s'"
  unfolding decisionsOk_def
proof (intro allI impI)
  fix pre e post
  assume a: "elems (s_m s') = pre @ e # post \<and> Decision e"
  then have "elems (s_m s) = pre @ e # (post @ rest)" by (simp add: el)
  with dk a have "IsFormulaFalse \<lparr>elems = pre\<rparr> (s_f s) = None"
    unfolding decisionsOk_def by blast
  moreover from c a have "\<not> IsClauseFalse \<lparr>elems = pre\<rparr> c" by blast
  ultimately show "IsFormulaFalse \<lparr>elems = pre\<rparr> (s_f s') = None"
    using f unfolding IsFormulaFalse_None by blast
qed

lemma tvars_TrimToLevel_subset: "tvars (TrimToLevel t k) \<subseteq> tvars t"
  using lits_TrimToLevel_subset[of t k] by (auto simp: tvars_def)

lemma fvars_append: "fvars (fm @ [cl]) = fvars fm \<union> abs ` set cl"
  by (auto simp: fvars_def)

text \<open>
  The backjump after an analysis that has ended: it does not panic, and the state it
  leaves keeps the invariants.
\<close>

lemma backjump_step:
  assumes inv: "trailInv s" and ex: "explaining s3 a" and n1: "cN s3 = 1"
    and en: "enumerates ord" and c3: "s_c s3 = ord (cP s3) @ [Negate (cL s3)]"
    and m3: "s_m s3 = s_m s" and f3: "s_f s3 = s_f s" and r3: "reasonMap s3 = reasonMap s"
    and s4: "s4 = s3 \<or> s4 = s3\<lparr>s_f := s_f s3 @ [s_c s3]\<rparr>"
  shows "\<exists>s5. applyBackjump ord s4 = Inr s5 \<and> trailInv s5 \<and>
           s5 = s4\<lparr>s_m := Assert (TrimToLevel (s_m s) (backjumpLevel ord s3)) (Negate (cL s3)) False,
                  reasonMap := (reasonMap s)(Negate (cL s3) \<mapsto> s_c s3)\<rparr> \<and>
           (varsOk s \<and> vars s3 = vars s \<and> decideLiterals s3 = decideLiterals s \<longrightarrow> varsOk s5)"
proof -
  let ?k = "backjumpLevel ord s3"
  let ?t' = "TrimToLevel (s_m s) ?k"
  let ?lit = "Negate (cL s3)"
  from inv have ok: "trailOk (s_m s)" and ro: "reasonsOk s" and dk: "decisionsOk s"
    by (simp_all add: trailInv_def)
  have ok3: "trailOk (s_m s3)" using ok by (simp only: m3)
  note B = backjump_facts[OF ok3 ex n1 en, unfolded m3]
  note F = analysed_facts[OF ok3 ex n1, unfolded m3]
  have cs: "set (s_c s3) = insert ?lit (cP s3)"
    using enumerates_set[OF en F(4)] by (simp add: c3)
  have k4: "backjumpLevel ord s4 = ?k" and m4: "s_m s4 = s_m s" and c4: "s_c s4 = s_c s3"
    and l4: "cL s4 = cL s3" and r4: "reasonMap s4 = reasonMap s"
    using s4 by (auto simp: backjumpLevel_def m3 r3)
  let ?s5 = "s4\<lparr>s_m := Assert ?t' ?lit False, reasonMap := (reasonMap s)(?lit \<mapsto> s_c s3)\<rparr>"
  have bj: "applyBackjump ord s4 = Inr ?s5"
    using B(3) by (simp add: applyBackjump_Inr k4 m4 c4 l4 r4)
  have un: "?lit \<notin> set (lits ?t')" "cL s3 \<notin> set (lits ?t')"
    using B(3) by (simp_all add: ValueLit_Undef)
  from trimElems_prefix[of "elems (s_m s)" ?k] obtain rest where
    pre: "elems (s_m s) = elems ?t' @ rest"
    by (auto simp: TrimToLevel_def)
  text \<open>The trimmed trail.\<close>
  define sM where "sM = s4\<lparr>s_m := ?t'\<rparr>"
  have mM: "s_m sM = ?t'" and rM: "reasonMap sM = reasonMap s" and fM: "s_f sM = s_f s4"
    by (simp_all add: sM_def r4)
  have roM: "reasonsOk sM"
    by (rule reasonsOk_prefix[OF ro, where rest = rest]) (simp_all add: mM rM pre)
  have notF: "\<forall>p e q. elems (s_m sM) = p @ e # q \<longrightarrow> \<not> IsClauseFalse \<lparr>elems = p\<rparr> (s_c s3)"
  proof (intro allI impI notI)
    fix p e q
    assume el: "elems (s_m sM) = p @ e # q" and fl: "IsClauseFalse \<lparr>elems = p\<rparr> (s_c s3)"
    from fl cs have "ValueLit \<lparr>elems = p\<rparr> ?lit = TriFalse"
      by (simp add: IsClauseFalse_iff)
    then have "cL s3 \<in> set (map Lit p)"
      by (simp add: ValueLit_TriFalse lits_def)
    with el have "cL s3 \<in> set (lits ?t')"
      by (simp add: mM[symmetric] lits_def)
    with un(2) show False by simp
  qed
  have dkM: "decisionsOk sM"
  proof (rule decisionsOk_prefix[OF dk, where rest = rest and c = "s_c s3"])
    show "elems (s_m s) = elems (s_m sM) @ rest" by (simp add: mM pre)
    show "set (s_f sM) \<subseteq> insert (s_c s3) (set (s_f s))"
      using s4 by (auto simp: fM f3)
    show "\<forall>pre e post. elems (s_m sM) = pre @ e # post \<longrightarrow> \<not> IsClauseFalse \<lparr>elems = pre\<rparr> (s_c s3)"
      by (rule notF)
  qed
  text \<open>The asserted literal.\<close>
  have 1: "trailOk (s_m ?s5)"
    using trailOk_Assert[OF trailOk_TrimToLevel[OF ok] B(3)] by simp
  have 2: "reasonsOk ?s5"
  proof (rule reasonsOk_snoc[OF roM, where e = "\<lparr>Lit = ?lit, Decision = False\<rparr>"])
    show "elems (s_m ?s5) = elems (s_m sM) @ [\<lparr>Lit = ?lit, Decision = False\<rparr>]"
      by (simp add: mM)
    show "\<forall>x\<in>set (lits (s_m sM)). reasonMap ?s5 x = reasonMap sM x"
      using un(1) by (auto simp: mM rM)
    show "\<not> Decision \<lparr>Lit = ?lit, Decision = False\<rparr> \<longrightarrow>
       (\<exists>r. reasonMap ?s5 (Lit \<lparr>Lit = ?lit, Decision = False\<rparr>) = Some r \<and>
            Lit \<lparr>Lit = ?lit, Decision = False\<rparr> \<in> set r \<and>
            (\<forall>l\<in>set r. l \<noteq> Lit \<lparr>Lit = ?lit, Decision = False\<rparr> \<longrightarrow> ValueLit (s_m sM) l = TriFalse))"
      using B(4) cs by (auto simp: mM)
  qed
  have 3: "decisionsOk ?s5"
    by (rule decisionsOk_snoc[OF dkM, where e = "\<lparr>Lit = ?lit, Decision = False\<rparr>"])
      (simp_all add: mM fM)
  have 4: "varsOk ?s5" if v: "varsOk s" "vars s3 = vars s" "decideLiterals s3 = decideLiterals s"
  proof -
    note V = varsOk_fields[OF v(1)]
    have "vars s4 = vars s3 \<and> decideLiterals s4 = decideLiterals s3"
      using s4 by (rule disjE) simp_all
    then have v4: "vars ?s5 = vars s" "decideLiterals ?s5 = decideLiterals s"
      by (simp_all add: v(2,3))
    from ex obtain b where "lits (s_m s) = a @ cL s3 # b"
      by (auto simp: explaining_def m3)
    then have cLv: "\<bar>cL s3\<bar> \<in> tvars (s_m s)"
      by (simp add: tvars_def)
    have cPv: "abs ` cP s3 \<subseteq> tvars (s_m s)"
    proof
      fix v assume "v \<in> abs ` cP s3"
      then obtain l where l: "l \<in> cP s3" "v = \<bar>l\<bar>" by auto
      with F(5) have "Negate l \<in> set (lits (s_m s))" by (simp add: ValueLit_TriFalse)
      then have "\<bar>Negate l\<bar> \<in> tvars (s_m s)" unfolding tvars_def by (rule imageI)
      with l(2) show "v \<in> tvars (s_m s)" by simp
    qed
    have "tvars (s_m ?s5) = insert \<bar>cL s3\<bar> (tvars ?t')"
      by (simp add: tvars_Assert)
    with tvars_TrimToLevel_subset[of "s_m s" ?k] cLv V(3)
    have t5: "tvars (s_m ?s5) \<subseteq> vars s"
      by auto
    have cv: "abs ` set (s_c s3) \<subseteq> vars s"
      using cs cLv cPv V(3) by auto
    have "s_f ?s5 = s_f s \<or> s_f ?s5 = s_f s @ [s_c s3]"
      using s4 by (auto simp: f3)
    then have f5: "fvars (s_f ?s5) \<subseteq> vars s"
    proof
      assume "s_f ?s5 = s_f s"
      with V(4) show ?thesis by (simp only:)
    next
      assume "s_f ?s5 = s_f s @ [s_c s3]"
      then have "fvars (s_f ?s5) = fvars (s_f s) \<union> abs ` set (s_c s3)"
        by (simp only: fvars_append)
      with V(4) cv show ?thesis by blast
    qed
    show ?thesis
      unfolding varsOk_def v4 by (intro conjI V(1,2,5) t5 f5)
  qed
  have 5: "trailInv ?s5"
    unfolding trailInv_def using 1 2 3 by (intro conjI)
  have 6: "varsOk s \<and> vars s3 = vars s \<and> decideLiterals s3 = decideLiterals s \<longrightarrow> varsOk ?s5"
    using 4 by (intro impI) (elim conjE)
  show ?thesis
    by (intro exI[of _ ?s5] conjI bj 5 6 refl)
qed

section \<open>A round keeps the invariants\<close>

lemma selectLiteral_Inr:
  assumes "selectLiteral ord s = Inr (l, s2)"
  shows "set (decideLiterals s2) \<subseteq> set (decideLiterals s)"
    and "l \<in> set (decideLiterals s) \<or> l \<in> set (ord (vars s)) \<or>
         (l = 0 \<and> decideLiterals s = [] \<and> set (ord (vars s)) \<subseteq> tvars (s_m s))"
    and "decideLiterals s = [] \<Longrightarrow> decideLiterals s2 = []"
  using assms
  by (auto simp: selectLiteral_unfold find_None_iff
      split: list.splits if_splits option.splits dest: find_Some_set)

lemma decide_step:
  assumes inv: "trailInv s" and nf: "IsFormulaFalse (s_m s) (s_f s) = None"
    and sel: "selectLiteral ord s = Inr (l, s2)" and asl: "assertLiteral l True s2 = Inr s3"
  shows "trailInv s3" and "s3 = s2\<lparr>s_m := Assert (s_m s) l True\<rparr>"
    and "ValueLit (s_m s) l = Undef"
proof -
  note f = selectLiteral_frame[OF sel]
  from asl show un: "ValueLit (s_m s) l = Undef" and e: "s3 = s2\<lparr>s_m := Assert (s_m s) l True\<rparr>"
    by (simp_all add: assertLiteral_Inr f)
  from inv have ok: "trailOk (s_m s)" and ro: "reasonsOk s" and dk: "decisionsOk s"
    by (simp_all add: trailInv_def)
  have m3: "s_m s3 = Assert (s_m s) l True" and f3: "s_f s3 = s_f s"
    and r3: "reasonMap s3 = reasonMap s"
    by (simp_all add: e f)
  have 1: "trailOk (s_m s3)"
    using trailOk_Assert[OF ok un] by (simp add: m3)
  have 2: "reasonsOk s3"
    by (rule reasonsOk_snoc[OF ro, where e = "\<lparr>Lit = l, Decision = True\<rparr>"])
      (simp_all add: m3 r3)
  have 3: "decisionsOk s3"
    by (rule decisionsOk_snoc[OF dk, where e = "\<lparr>Lit = l, Decision = True\<rparr>"])
      (simp_all add: m3 f3 nf)
  from 1 2 3 show "trailInv s3" by (simp add: trailInv_def)
qed

lemma Len_vars:
  assumes "finite V" and "tvars t \<subseteq> V"
  shows "Len t = card V \<longleftrightarrow> tvars t = V"
  using assms card_subset_eq[of V "tvars t"] by (auto simp: Len_def)

lemma decide_varsOk:
  assumes v: "varsOk s" and en: "enumerates ord" and nl: "Len (s_m s) \<noteq> card (vars s)"
    and sel: "selectLiteral ord s = Inr (l, s2)"
  shows "varsOk (s2\<lparr>s_m := Assert (s_m s) l True\<rparr>)" and "\<bar>l\<bar> \<in> vars s"
proof -
  note f = selectLiteral_frame[OF sel]
  note V = varsOk_fields[OF v]
  note S = selectLiteral_Inr[OF sel]
  have o: "set (ord (vars s)) = vars s"
    by (rule enumerates_set[OF en V(1)])
  from nl have ne: "tvars (s_m s) \<noteq> vars s"
    by (simp add: Len_vars[OF V(1) V(3)])
  from S(2) show l: "\<bar>l\<bar> \<in> vars s"
  proof (elim disjE)
    assume "l \<in> set (decideLiterals s)"
    with V(5) show ?thesis by blast
  next
    assume "l \<in> set (ord (vars s))"
    with o V(2) show ?thesis by auto
  next
    assume "l = 0 \<and> decideLiterals s = [] \<and> set (ord (vars s)) \<subseteq> tvars (s_m s)"
    with o V(3) ne show ?thesis by auto
  qed
  have "abs ` set (decideLiterals s2) \<subseteq> vars s"
    using S(1) V(5) by blast
  with V l show "varsOk (s2\<lparr>s_m := Assert (s_m s) l True\<rparr>)"
    by (simp add: varsOk_def f tvars_Assert)
qed

text \<open>
  With no override literals and a variable left unassigned, the selection and the assertion
  of the decision do not panic.
\<close>

lemma decide_total:
  assumes v: "varsOk s" and en: "enumerates ord" and nl: "Len (s_m s) \<noteq> card (vars s)"
    and d: "decideLiterals s = []"
  shows "\<exists>l. selectLiteral ord s = Inr (l, s) \<and> l \<in> vars s \<and> l \<notin> tvars (s_m s) \<and>
             assertLiteral l True s = Inr (s\<lparr>s_m := Assert (s_m s) l True\<rparr>)"
proof -
  note V = varsOk_fields[OF v]
  have o: "set (ord (vars s)) = vars s"
    by (rule enumerates_set[OF en V(1)])
  from nl have ne: "tvars (s_m s) \<noteq> vars s"
    by (simp add: Len_vars[OF V(1) V(3)])
  with V(3) obtain x where "x \<in> vars s" "x \<notin> tvars (s_m s)" by blast
  with o have "find (\<lambda>k. k \<notin> tvars (s_m s)) (ord (vars s)) \<noteq> None"
    by (auto simp: find_None_iff)
  then obtain l where fl: "find (\<lambda>k. k \<notin> tvars (s_m s)) (ord (vars s)) = Some l"
    by blast
  from find_Some_set[OF fl] o have l: "l \<in> vars s" "l \<notin> tvars (s_m s)"
    by auto
  from l(1) V(2) have "\<bar>l\<bar> = l" by auto
  with l(2) have "l \<notin> set (lits (s_m s))" "Negate l \<notin> set (lits (s_m s))"
    unfolding tvars_def by (metis image_eqI, metis abs_Negate image_eqI)
  then have "ValueLit (s_m s) l = Undef"
    by (simp add: ValueLit_Undef)
  then have "assertLiteral l True s = Inr (s\<lparr>s_m := Assert (s_m s) l True\<rparr>)"
    by (simp add: assertLiteral_Inr)
  moreover have "selectLiteral ord s = Inr (l, s)"
    using fl d by (simp add: selectLiteral_unfold)
  ultimately show ?thesis using l by blast
qed

text \<open>
  One round on a state that keeps the invariants: conflict analysis ends, so the round
  does not hang, and the state that goes into the next round keeps the invariants.
\<close>

lemma solveRound_inv:
  assumes inv: "trailInv s" and en: "enumerates ord"
  shows "solveRound ord s \<noteq> Hang"
    and "solveRound ord s = Continue s' \<Longrightarrow> trailInv s'"
    and "solveRound ord s = Continue s' \<Longrightarrow> varsOk s \<Longrightarrow> varsOk s'"
proof -
  have "solveRound ord s \<noteq> Hang \<and> (solveRound ord s = Continue s' \<longrightarrow> trailInv s' \<and> (varsOk s \<longrightarrow> varsOk s'))"
  proof (cases ord s rule: solveRound_cases)
    case (conflict0 s1 cc)
    then show ?thesis by simp
  next
    case (hang s1 cc)
    from unitPropagate_inv[of s] hang(1) inv have i1: "trailInv s1" by auto
    from analysis_result[OF i1 hang(2), of ord] hang(3,4) show ?thesis by auto
  next
    case (learn s1 cc s3)
    from unitPropagate_inv[of s] learn(1) inv have i1: "trailInv s1"
      and v1: "varsOk s \<longrightarrow> varsOk s1" by auto
    from analysis_result[OF i1 learn(2), of ord] learn(3,4) obtain a where
      A: "explaining s3 a" "cN s3 = 1" "s_c s3 = ord (cP s3) @ [Negate (cL s3)]"
      "s_m s3 = s_m s1" "s_f s3 = s_f s1" "reasonMap s3 = reasonMap s1" "vars s3 = vars s1"
      "decideLiterals s3 = decideLiterals s1"
      by auto
    define s4 where "s4 = (if 1 < length (s_c s3) then s3\<lparr>s_f := s_f s3 @ [s_c s3]\<rparr> else s3)"
    have "s4 = s3 \<or> s4 = s3\<lparr>s_f := s_f s3 @ [s_c s3]\<rparr>"
      by (simp add: s4_def)
    from backjump_step[OF i1 A(1) A(2) en A(3) A(4) A(5) A(6) this] obtain s5 where
      B: "applyBackjump ord s4 = Inr s5" "trailInv s5"
      "varsOk s1 \<and> vars s3 = vars s1 \<and> decideLiterals s3 = decideLiterals s1 \<longrightarrow> varsOk s5"
      by blast
    have "solveRound ord s = Continue s5"
      using learn(5) B(1) by (simp add: s4_def)
    with B(2,3) v1 A(7,8) show ?thesis by auto
  next
    case (sat s1)
    then show ?thesis by simp
  next
    case (decide s1)
    from unitPropagate_inv[of s] decide(1) inv have i1: "trailInv s1"
      and v1: "varsOk s \<longrightarrow> varsOk s1" by auto
    show ?thesis
    proof (cases "selectLiteral ord s1")
      case (Inl e)
      with decide(4) show ?thesis by simp
    next
      case (Inr p)
      obtain l s2 where p: "p = (l, s2)" by (cases p)
      note sel = Inr[unfolded p]
      show ?thesis
      proof (cases "assertLiteral l True s2")
        case (Inl e)
        with decide(4) sel show ?thesis by simp
      next
        case (Inr s3)
        note D = decide_step[OF i1 decide(2) sel Inr]
        have r: "solveRound ord s = Continue s3"
          using decide(4) sel Inr by simp
        have "varsOk s3" if "varsOk s"
        proof -
          from that v1 have "varsOk s1" by simp
          from decide_varsOk(1)[OF this en decide(3) sel] D(2) show ?thesis by simp
        qed
        with r D(1) show ?thesis by auto
      qed
    qed
  qed
  then show "solveRound ord s \<noteq> Hang"
    and "solveRound ord s = Continue s' \<Longrightarrow> trailInv s'"
    and "solveRound ord s = Continue s' \<Longrightarrow> varsOk s \<Longrightarrow> varsOk s'"
    by blast+
qed

section \<open>The rounds of a run\<close>

text \<open>
  The state in which round \<open>k\<close> of the loop of \<^verbatim>\<open>Solve\<close> starts, when the \<open>k\<close> rounds
  before it all went on to a next round; \<open>ord j\<close> is the order of the maps in round \<open>j\<close>.
\<close>

fun rounds :: "(nat \<Rightarrow> int set \<Rightarrow> int list) \<Rightarrow> nat \<Rightarrow> solver \<Rightarrow> solver option" where
  "rounds ord 0 s = Some s"
| "rounds ord (Suc k) s =
     (case solveRound (ord 0) s of
        Continue s' \<Rightarrow> rounds (\<lambda>j. ord (Suc j)) k s'
      | Return r \<Rightarrow> None
      | Hang \<Rightarrow> None)"

lemma trailInv_start: "s_m s = newTrail \<Longrightarrow> trailInv s"
  by (simp add: trailInv_def trailOk_def reasonsOk_def decisionsOk_def newTrail_def lits_def)

lemma rounds_inv:
  assumes "\<forall>j. enumerates (ord j)" and "rounds ord k s = Some s'" and "trailInv s"
  shows "trailInv s'" and "varsOk s \<Longrightarrow> varsOk s'"
proof -
  have "trailInv s' \<and> (varsOk s \<longrightarrow> varsOk s')"
    using assms
  proof (induction k arbitrary: ord s)
    case 0
    then show ?case by simp
  next
    case (Suc k)
    from Suc.prems(2) obtain t where c: "solveRound (ord 0) s = Continue t"
      and r: "rounds (\<lambda>j. ord (Suc j)) k t = Some s'"
      by (auto split: round.splits)
    from Suc.prems(1) have e0: "enumerates (ord 0)" and e: "\<forall>j. enumerates (ord (Suc j))"
      by simp_all
    note I = solveRound_inv[OF Suc.prems(3) e0]
    from Suc.IH[OF e r I(2)[OF c]] I(3)[OF c] show ?case by blast
  qed
  then show "trailInv s'" and "varsOk s \<Longrightarrow> varsOk s'" by blast+
qed

text \<open>The order of round \<open>k\<close> is what the loop, started in the state of round \<open>k\<close>, uses first.\<close>

lemma solveLoop_rounds:
  "rounds ord k s = Some s' \<Longrightarrow> solveLoop ord s = solveLoop (\<lambda>j. ord (k + j)) s'"
proof (induction k arbitrary: ord s)
  case 0
  then show ?case by simp
next
  case (Suc k)
  from Suc.prems obtain t where c: "solveRound (ord 0) s = Continue t"
    and r: "rounds (\<lambda>j. ord (Suc j)) k t = Some s'"
    by (auto split: round.splits)
  from Suc.IH[OF r] solveLoop_Continue[of ord, OF c] show ?case by simp
qed

section \<open>The backjump: the claim\<close>

lemma Level_Assert_new:
  assumes "\<bar>l\<bar> \<notin> tvars t"
  shows "Level (Assert t l d) l = (if d then Suc (DecisionsLen t) else DecisionsLen t)"
  using assms
  by (simp add: Level_def tvars_evars levelFrom_append DecisionsLen_decisions Let_def)

text \<open>
  C5. Take a run from an empty trail and a round of it in which unit propagation ends in
  a conflict with a decision level open. Conflict analysis ends in a state \<open>s3\<close>; every
  literal of \<^verbatim>\<open>cP\<close> is falsified, so its negation is on the trail. The level
  \<^verbatim>\<open>applyBackjump\<close> computes is the greatest decision level of the negations of the
  literals of \<^verbatim>\<open>cP\<close>, 0 when \<^verbatim>\<open>cP\<close> is empty, and lies below the current level. On the
  trail trimmed to that level the learned clause \<^verbatim>\<open>s.c\<close> is unit: the negation of \<^verbatim>\<open>cL\<close>
  is unassigned and every other literal is falsified. The backjump does not panic: the
  round goes on with the trimmed trail, the negation of \<^verbatim>\<open>cL\<close> asserted on it at the
  target level as a propagated literal, and the learned clause recorded as its reason.
  Once asserted, that literal holds and the other literals of the clause stay falsified.
\<close>

theorem backjump_asserting:
  assumes "s_m s0 = newTrail" and "\<forall>j. enumerates (ord j)" and "rounds ord k s0 = Some s"
    and "unitPropagate s = Inr s1" and "IsFormulaFalse (s_m s1) (s_f s1) = Some cc"
    and "DecisionsLen (s_m s1) \<noteq> 0"
  shows "\<exists>s3 s5. applyExplainUIP (ord k) (applyConflict cc s1) = Some s3 \<and>
           (\<forall>l\<in>cP s3. ValueLit (s_m s1) l = TriFalse) \<and>
           backjumpLevel (ord k) s3 = Max (insert 0 ((\<lambda>l. Level (s_m s1) (Negate l)) ` cP s3)) \<and>
           backjumpLevel (ord k) s3 < CurrentLevel (s_m s1) \<and>
           Negate (cL s3) \<in> set (s_c s3) \<and>
           IsUnit (TrimToLevel (s_m s1) (backjumpLevel (ord k) s3)) (s_c s3) (Negate (cL s3)) \<and>
           solveRound (ord k) s = Continue s5 \<and>
           s_m s5 = Assert (TrimToLevel (s_m s1) (backjumpLevel (ord k) s3)) (Negate (cL s3)) False \<and>
           CurrentLevel (s_m s5) = backjumpLevel (ord k) s3 \<and>
           Level (s_m s5) (Negate (cL s3)) = backjumpLevel (ord k) s3 \<and>
           reasonMap s5 = (reasonMap s1)(Negate (cL s3) \<mapsto> s_c s3) \<and>
           ValueLit (s_m s5) (Negate (cL s3)) = TriTrue \<and>
           (\<forall>l\<in>set (s_c s3). l \<noteq> Negate (cL s3) \<longrightarrow> ValueLit (s_m s5) l = TriFalse)"
proof -
  let ?o = "ord k"
  from assms(2) have en: "enumerates ?o" by simp
  have "trailInv s"
    by (rule rounds_inv(1)[OF assms(2) assms(3) trailInv_start[OF assms(1)]])
  with unitPropagate_inv[of s] assms(4) have i1: "trailInv s1" by auto
  then have ok: "trailOk (s_m s1)" by (simp add: trailInv_def)
  from assms(6) have pos: "0 < DecisionsLen (s_m s1)" by simp
  from analysis_result[OF i1 assms(5) pos, of ?o] obtain s3 a where
    ae: "applyExplainUIP ?o (applyConflict cc s1) = Some s3"
    and A: "explaining s3 a" "cN s3 = 1" "s_c s3 = ?o (cP s3) @ [Negate (cL s3)]"
      "s_m s3 = s_m s1" "s_f s3 = s_f s1" "reasonMap s3 = reasonMap s1"
    by blast
  let ?k = "backjumpLevel ?o s3"
  let ?t = "TrimToLevel (s_m s1) ?k"
  have ok3: "trailOk (s_m s3)" using ok by (simp only: A(4))
  note B = backjump_facts[OF ok3 A(1) A(2) en, unfolded A(4)]
  note F = analysed_facts[OF ok3 A(1) A(2), unfolded A(4)]
  have cs: "set (s_c s3) = insert (Negate (cL s3)) (cP s3)"
    using enumerates_set[OF en F(4)] by (simp add: A(3))
  define s4 where "s4 = (if 1 < length (s_c s3) then s3\<lparr>s_f := s_f s3 @ [s_c s3]\<rparr> else s3)"
  have "s4 = s3 \<or> s4 = s3\<lparr>s_f := s_f s3 @ [s_c s3]\<rparr>"
    by (simp add: s4_def)
  from backjump_step[OF i1 A(1) A(2) en A(3) A(4) A(5) A(6) this] obtain s5 where
    bj: "applyBackjump ?o s4 = Inr s5"
    and s5: "s5 = s4\<lparr>s_m := Assert ?t (Negate (cL s3)) False,
                    reasonMap := (reasonMap s1)(Negate (cL s3) \<mapsto> s_c s3)\<rparr>"
    by blast
  have dl: "DecisionsLen (s_m (applyConflict cc s1)) = DecisionsLen (s_m s1)"
    using sameProblem_fields(1)[OF applyConflict_same[of s1 cc]] by simp
  have r: "solveRound ?o s = Continue s5"
    using assms(4,5,6) ae bj by (simp add: solveRound_def Let_def dl s4_def)
  have 1: "\<forall>l\<in>cP s3. ValueLit (s_m s1) l = TriFalse"
    using F(5) by blast
  have 2: "IsUnit ?t (s_c s3) (Negate (cL s3))"
    using B(3) B(4) by (auto simp: IsUnit_def list_all_iff cs)
  have m5: "s_m s5 = Assert ?t (Negate (cL s3)) False"
    by (simp add: s5)
  have c5: "CurrentLevel (s_m s5) = ?k"
    using B(2) by (simp add: m5 CurrentLevel_def DecisionsLen_Assert DecisionsLen_TrimToLevel)
  have "\<bar>Negate (cL s3)\<bar> \<notin> tvars ?t"
    by (rule ValueLit_Undef_tvars[OF B(3)])
  from Level_Assert_new[OF this, of False] B(2)
  have l5: "Level (s_m s5) (Negate (cL s3)) = ?k"
    by (simp add: m5 CurrentLevel_def DecisionsLen_TrimToLevel del: Level_Negate)
  have r5: "reasonMap s5 = (reasonMap s1)(Negate (cL s3) \<mapsto> s_c s3)"
    by (simp add: s5)
  have 3: "Negate (cL s3) \<in> set (s_c s3)"
    by (simp add: cs)
  from B(1) have 4: "?k = Max (insert 0 ((\<lambda>l. Level (s_m s1) (Negate l)) ` cP s3))" .
  have 5: "ValueLit (s_m s5) (Negate (cL s3)) = TriTrue"
    by (simp add: m5 ValueLit_TriTrue)
  have 6: "\<forall>l\<in>set (s_c s3). l \<noteq> Negate (cL s3) \<longrightarrow> ValueLit (s_m s5) l = TriFalse"
  proof (intro ballI impI)
    fix l assume "l \<in> set (s_c s3)" and ne: "l \<noteq> Negate (cL s3)"
    with cs have "l \<in> cP s3" by simp
    with B(4) have "ValueLit ?t l = TriFalse" by blast
    then have "l \<notin> set (lits ?t)" "Negate l \<in> set (lits ?t)"
      by (simp_all add: ValueLit_TriFalse)
    with ne show "ValueLit (s_m s5) l = TriFalse"
      by (simp add: m5 ValueLit_TriFalse)
  qed
  show ?thesis
    by (intro exI[of _ s3] exI[of _ s5] conjI ae 1 4 B(2) 3 2 r m5 c5 l5 r5 5 6)
qed


text \<open>
  The theorem at the formula \<open>{[-1, -2, 3], [-1, -2, -3]}\<close>, keys ascending. Rounds 0 and 1
  decide 1 and 2; round 2 propagates 3 and finds \<open>[-1, -2, -3]\<close> falsified at level 2.
  The analysis learns \<open>[-1, -2]\<close> with \<^verbatim>\<open>cP\<close> holding \<open>-1\<close>, whose negation was decided at
  level 1: the backjump goes to level 1, where the clause is unit, and asserts \<open>-2\<close>.
\<close>

theorem backjump_asserting_witness:
  "s_m (AddFormula [[- 1, - 2, 3], [- 1, - 2, - 3]] New) = newTrail \<and>
   enumerates ascending \<and>
   (\<exists>s s1 s3 s5.
      rounds (\<lambda>j. ascending) 2 (AddFormula [[- 1, - 2, 3], [- 1, - 2, - 3]] New) = Some s \<and>
      unitPropagate s = Inr s1 \<and> lits (s_m s1) = [1, 2, 3] \<and>
      IsFormulaFalse (s_m s1) (s_f s1) = Some [- 1, - 2, - 3] \<and> DecisionsLen (s_m s1) = 2 \<and>
      applyExplainUIP ascending (applyConflict [- 1, - 2, - 3] s1) = Some s3 \<and>
      cP s3 = {- 1} \<and> cL s3 = 2 \<and> s_c s3 = [- 1, - 2] \<and>
      Level (s_m s1) (Negate (- 1)) = 1 \<and> backjumpLevel ascending s3 = 1 \<and>
      IsUnit (TrimToLevel (s_m s1) 1) [- 1, - 2] (- 2) \<and>
      solveRound ascending s = Continue s5 \<and> lits (s_m s5) = [1, - 2] \<and>
      CurrentLevel (s_m s5) = 1 \<and> reasonMap s5 (- 2) = Some [- 1, - 2])"
proof -
  define a where "a = AddFormula [[- 1, - 2, 3], [- 1, - 2, - 3]] New"
  define s where "s = the (rounds (\<lambda>j. ascending) 2 a)"
  define s1 where "s1 = projr (unitPropagate s)"
  define t3 where "t3 = the (applyExplainUIP ascending (applyConflict [- 1, - 2, - 3] s1))"
  have a0: "s_m a = newTrail"
    by (simp add: a_def AddFormula_def New_def)
  have "case rounds (\<lambda>j. ascending) 2 a of None \<Rightarrow> False | Some _ \<Rightarrow> True"
    unfolding a_def by code_simp
  then have r: "rounds (\<lambda>j. ascending) 2 a = Some s"
    by (auto simp: s_def split: option.splits)
  have "case unitPropagate s of Inl _ \<Rightarrow> False | Inr _ \<Rightarrow> True"
    unfolding s_def a_def by code_simp
  then have up: "unitPropagate s = Inr s1"
    by (auto simp: s1_def split: sum.splits)
  have l1: "lits (s_m s1) = [1, 2, 3]"
    unfolding s1_def s_def a_def by code_simp
  have cf: "IsFormulaFalse (s_m s1) (s_f s1) = Some [- 1, - 2, - 3]"
    unfolding s1_def s_def a_def by code_simp
  have dl: "DecisionsLen (s_m s1) = 2"
    unfolding s1_def s_def a_def by code_simp
  have p3: "cP t3 = {- 1}"
    unfolding t3_def s1_def s_def a_def by code_simp
  have c3: "cL t3 = 2"
    unfolding t3_def s1_def s_def a_def by code_simp
  have sc3: "s_c t3 = [- 1, - 2]"
    unfolding t3_def s1_def s_def a_def by code_simp
  have lv: "Level (s_m s1) 1 = 1"
    unfolding s1_def s_def a_def by code_simp
  have lvm: "Level (s_m s1) (- 1) = 1"
    unfolding s1_def s_def a_def by code_simp
  from dl have d0: "DecisionsLen (s_m s1) \<noteq> 0" by simp
  from backjump_asserting[of a "\<lambda>j. ascending" 2 s s1 "[- 1, - 2, - 3]", OF a0 _ r up cf d0]
    enumerates_ascending
  obtain s3 s5 where
    T: "applyExplainUIP ascending (applyConflict [- 1, - 2, - 3] s1) = Some s3"
      "backjumpLevel ascending s3 = Max (insert 0 ((\<lambda>l. Level (s_m s1) (Negate l)) ` cP s3))"
      "IsUnit (TrimToLevel (s_m s1) (backjumpLevel ascending s3)) (s_c s3) (Negate (cL s3))"
      "solveRound ascending s = Continue s5"
      "s_m s5 = Assert (TrimToLevel (s_m s1) (backjumpLevel ascending s3)) (Negate (cL s3)) False"
      "CurrentLevel (s_m s5) = backjumpLevel ascending s3"
      "reasonMap s5 = (reasonMap s1)(Negate (cL s3) \<mapsto> s_c s3)"
    by auto
  from T(1) have e3: "s3 = t3"
    by (simp add: t3_def)
  have k: "backjumpLevel ascending s3 = 1"
    using T(2) by (simp add: e3 p3 lvm)
  then have k3: "backjumpLevel ascending t3 = 1"
    by (simp only: e3)
  have tr: "lits (TrimToLevel (s_m s1) 1) = [1]"
    unfolding s1_def s_def a_def by code_simp
  have l5: "lits (s_m s5) = [1, - 2]"
    by (simp add: T(5) e3 k3 c3 tr[unfolded One_nat_def] Negate_def)
  have u: "IsUnit (TrimToLevel (s_m s1) 1) [- 1, - 2] (- 2)"
    using T(3) by (simp add: e3 k3 c3 sc3 Negate_def)
  have r5: "reasonMap s5 (- 2) = Some [- 1, - 2]"
    by (simp add: T(7) e3 c3 sc3 Negate_def)
  have c5: "CurrentLevel (s_m s5) = 1"
    using T(6) k by simp
  have "\<exists>s s1 s3 s5.
      rounds (\<lambda>j. ascending) 2 a = Some s \<and>
      unitPropagate s = Inr s1 \<and> lits (s_m s1) = [1, 2, 3] \<and>
      IsFormulaFalse (s_m s1) (s_f s1) = Some [- 1, - 2, - 3] \<and> DecisionsLen (s_m s1) = 2 \<and>
      applyExplainUIP ascending (applyConflict [- 1, - 2, - 3] s1) = Some s3 \<and>
      cP s3 = {- 1} \<and> cL s3 = 2 \<and> s_c s3 = [- 1, - 2] \<and>
      Level (s_m s1) (Negate (- 1)) = 1 \<and> backjumpLevel ascending s3 = 1 \<and>
      IsUnit (TrimToLevel (s_m s1) 1) [- 1, - 2] (- 2) \<and>
      solveRound ascending s = Continue s5 \<and> lits (s_m s5) = [1, - 2] \<and>
      CurrentLevel (s_m s5) = 1 \<and> reasonMap s5 (- 2) = Some [- 1, - 2]"
    using r up l1 cf dl T(1) p3 c3 sc3 lv k u T(4) l5 c5 r5 unfolding e3
    by (intro exI[of _ s] exI[of _ s1] exI[of _ t3] exI[of _ s5]) (simp add: Negate_def)
  with a0 enumerates_ascending show ?thesis
    unfolding a_def by blast
qed

section \<open>The learned clause: the claim\<close>

text \<open>
  The state of the loop \<^verbatim>\<open>for s.cN != 1\<close> of \<^verbatim>\<open>applyExplainUIP\<close> after \<open>n\<close> passes, or
  the state in which it ended if it ended before.
\<close>

fun explainSteps :: "nat \<Rightarrow> solver \<Rightarrow> solver" where
  "explainSteps 0 s = s"
| "explainSteps (Suc n) s = (if cN s \<noteq> 1 then explainSteps n (applyExplain (cL s) s) else s)"

lemma explainLoop_steps:
  "explainLoop s = Some s' \<Longrightarrow> \<exists>n. explainSteps n s = s'"
proof (induction rule: explainLoop.raw_induct[rotated 1, consumes 1])
  case (1 explainLoop s s')
  show ?case
  proof (cases "cN s = 1")
    case True
    with 1(2) have "explainSteps 0 s = s'" by simp
    then show ?thesis ..
  next
    case False
    with 1(2) have "explainLoop (applyExplain (cL s) s) = Some s'" by simp
    from 1(1)[OF this] obtain n where "explainSteps n (applyExplain (cL s) s) = s'" ..
    with False have "explainSteps (Suc n) s = s'" by simp
    then show ?thesis ..
  qed
qed

lemma explainSteps_explaining:
  assumes "trailOk (s_m s)" and "reasonsOk s" and "explaining s a"
  shows "\<exists>a'. explaining (explainSteps n s) a' \<and> s_m (explainSteps n s) = s_m s"
  using assms
proof (induction n arbitrary: s a)
  case 0
  then show ?case by auto
next
  case (Suc n)
  show ?case
  proof (cases "cN s = 1")
    case True
    with Suc.prems(3) show ?thesis by auto
  next
    case False
    let ?s1 = "applyExplain (cL s) s"
    from explain_step[OF Suc.prems False] obtain a' where ex': "explaining ?s1 a'"
      by blast
    note same = sameProblem_fields[OF applyExplain_same[of s "cL s"]]
    have ok': "trailOk (s_m ?s1)"
      using Suc.prems(1) by (simp only: same)
    have ro': "reasonsOk ?s1"
      using Suc.prems(2) reasonsOk_same[OF same(1) same(4)] by simp
    from Suc.IH[OF ok' ro' ex'] False same(1) show ?thesis by simp
  qed
qed

text \<open>\<^verbatim>\<open>cL\<close> is the last literal of the trail whose negation is in \<^verbatim>\<open>cH\<close>.\<close>

lemma explaining_last:
  assumes ok: "trailOk (s_m s)" and ex: "explaining s a"
  shows "\<exists>b. lits (s_m s) = a @ cL s # b \<and> (\<forall>x\<in>set b. Negate x \<notin> cH s)"
proof -
  from ex obtain b where sp: "lits (s_m s) = a @ cL s # b"
    and al: "\<forall>l\<in>cH s. Negate l \<in> set a \<union> {cL s}"
    by (auto simp: explaining_def)
  from trailOk_distinct[OF ok] sp have d: "distinct (a @ cL s # b)" by simp
  have "\<forall>x\<in>set b. Negate x \<notin> cH s"
  proof (intro ballI notI)
    fix x assume x: "x \<in> set b" and "Negate x \<in> cH s"
    with al have "Negate (Negate x) \<in> set a \<union> {cL s}" by blast
    then have "x \<in> set a \<union> {cL s}" by simp
    with d x show False by auto
  qed
  with sp show ?thesis by blast
qed

lemma addConflictLiteral_level0:
  "Level (s_m t) (Negate l) = 0 \<Longrightarrow> addConflictLiteral l t = t"
  by (simp add: addConflictLiteral_def Let_def del: Level_Negate)

lemma analysisInv_plain:
  assumes "analysisInv t"
  shows "\<forall>l\<in>cH t. 0 < Level (s_m t) (Negate l)"
    and "cP t = {l \<in> cH t. Level (s_m t) (Negate l) \<noteq> CurrentLevel (s_m t)}"
    and "cN t = int (card {l \<in> cH t. Level (s_m t) (Negate l) = CurrentLevel (s_m t)})"
  using assms by (simp_all add: analysisInv_def atLevel_def belowLevel_def)

text \<open>
  C4. Take a run from an empty trail and a round of it in which unit propagation ends in
  a conflict with a decision level open. Conflict analysis ends, in a state \<open>s3\<close> with
  \<^verbatim>\<open>cN\<close> at 1. The learned clause \<^verbatim>\<open>s.c\<close> has the literals of \<^verbatim>\<open>cP\<close> and the negation
  of \<^verbatim>\<open>cL\<close>, and no others, and these are the literals of \<^verbatim>\<open>cH\<close>; \<^verbatim>\<open>cL\<close> is on the
  trail, its negation is in \<^verbatim>\<open>cH\<close>, and no literal asserted after it has its negation in
  \<^verbatim>\<open>cH\<close>. In every state the analysis goes through, each literal of \<^verbatim>\<open>cH\<close> has its
  negation assigned at a level above 0, \<^verbatim>\<open>cP\<close> holds those of \<^verbatim>\<open>cH\<close> below the current
  level and \<^verbatim>\<open>cN\<close> counts those of \<^verbatim>\<open>cH\<close> at the current level. And in any state at all,
  \<^verbatim>\<open>addConflictLiteral\<close> of a literal whose negation has level 0 changes nothing.
\<close>

theorem analysis_learned_clause:
  assumes "s_m s0 = newTrail" and "\<forall>j. enumerates (ord j)" and "rounds ord k s0 = Some s"
    and "unitPropagate s = Inr s1" and "IsFormulaFalse (s_m s1) (s_f s1) = Some cc"
    and "DecisionsLen (s_m s1) \<noteq> 0"
  shows "(\<exists>s3 n a b.
            applyExplainUIP (ord k) (applyConflict cc s1) = Some s3 \<and> cN s3 = 1 \<and>
            s3 = (explainSteps n (applyConflict cc s1))\<lparr>s_c := s_c s3\<rparr> \<and>
            set (s_c s3) = cP s3 \<union> {Negate (cL s3)} \<and> cH s3 = cP s3 \<union> {Negate (cL s3)} \<and>
            lits (s_m s1) = a @ cL s3 # b \<and> Negate (cL s3) \<in> cH s3 \<and>
            (\<forall>x\<in>set b. Negate x \<notin> cH s3)) \<and>
         (\<forall>n. (\<forall>l\<in>cH (explainSteps n (applyConflict cc s1)). 0 < Level (s_m s1) (Negate l)) \<and>
              cP (explainSteps n (applyConflict cc s1)) =
                {l \<in> cH (explainSteps n (applyConflict cc s1)).
                   Level (s_m s1) (Negate l) \<noteq> CurrentLevel (s_m s1)} \<and>
              cN (explainSteps n (applyConflict cc s1)) =
                int (card {l \<in> cH (explainSteps n (applyConflict cc s1)).
                             Level (s_m s1) (Negate l) = CurrentLevel (s_m s1)})) \<and>
         (\<forall>t l. Level (s_m t) (Negate l) = 0 \<longrightarrow> addConflictLiteral l t = t)"
proof (intro conjI allI impI)
  let ?o = "ord k"
  let ?s0 = "applyConflict cc s1"
  from assms(2) have en: "enumerates ?o" by simp
  have "trailInv s"
    by (rule rounds_inv(1)[OF assms(2) assms(3) trailInv_start[OF assms(1)]])
  with unitPropagate_inv[of s] assms(4) have i1: "trailInv s1" by auto
  then have ok: "trailOk (s_m s1)" and ro: "reasonsOk s1" and dk: "decisionsOk s1"
    by (simp_all add: trailInv_def)
  from assms(6) have pos: "0 < DecisionsLen (s_m s1)" by simp
  note f0 = sameProblem_fields[OF applyConflict_same[of s1 cc]]
  from conflict_at_current_level[OF dk assms(5) pos]
  have fl: "IsClauseFalse (s_m s1) cc" and cur: "\<exists>l\<in>set cc. Level (s_m s1) l = CurrentLevel (s_m s1)"
    by blast+
  from pos have "0 < CurrentLevel (s_m s1)" by (simp add: CurrentLevel_def)
  from explaining_applyConflict[OF fl cur this] obtain a0 where e0: "explaining ?s0 a0"
    by blast
  have ok0: "trailOk (s_m ?s0)" using ok by (simp only: f0)
  have ro0: "reasonsOk ?s0" using ro reasonsOk_same[OF f0(1) f0(4)] by simp
  {
    fix n
    from explainSteps_explaining[OF ok0 ro0 e0, of n] obtain a' where
      "explaining (explainSteps n ?s0) a'" and m: "s_m (explainSteps n ?s0) = s_m s1"
      by (auto simp: f0)
    then have "analysisInv (explainSteps n ?s0)" by (simp add: explaining_def)
    note analysisInv_plain[OF this, unfolded m]
  }
  note P = this
  show "\<And>n. \<forall>l\<in>cH (explainSteps n ?s0). 0 < Level (s_m s1) (Negate l)"
    by (rule P(1))
  show "\<And>n. cP (explainSteps n ?s0) =
      {l \<in> cH (explainSteps n ?s0). Level (s_m s1) (Negate l) \<noteq> CurrentLevel (s_m s1)}"
    by (rule P(2))
  show "\<And>n. cN (explainSteps n ?s0) =
      int (card {l \<in> cH (explainSteps n ?s0). Level (s_m s1) (Negate l) = CurrentLevel (s_m s1)})"
    by (rule P(3))
  show "\<And>t l. Level (s_m t) (Negate l) = 0 \<Longrightarrow> addConflictLiteral l t = t"
    by (rule addConflictLiteral_level0)
  from analysis_result[OF i1 assms(5) pos, of ?o] obtain s3 a where
    ae: "applyExplainUIP ?o ?s0 = Some s3"
    and A: "explaining s3 a" "cN s3 = 1" "s_c s3 = ?o (cP s3) @ [Negate (cL s3)]"
      "s_m s3 = s_m s1"
    by blast
  have ok3: "trailOk (s_m s3)" using ok by (simp only: A(4))
  note F = analysed_facts[OF ok3 A(1) A(2)]
  have cs: "set (s_c s3) = cP s3 \<union> {Negate (cL s3)}"
    using enumerates_set[OF en F(4)] by (simp add: A(3))
  from A(1) have hL: "Negate (cL s3) \<in> cH s3" by (simp add: explaining_def)
  with F(3) have ch: "cH s3 = cP s3 \<union> {Negate (cL s3)}" by auto
  from explaining_last[OF ok3 A(1)] obtain b where
    sp: "lits (s_m s1) = a @ cL s3 # b" and nb: "\<forall>x\<in>set b. Negate x \<notin> cH s3"
    by (auto simp: A(4))
  from ae obtain t where t: "explainLoop ?s0 = Some t" and s3: "s3 = t\<lparr>s_c := ?o (cP t) @ [Negate (cL t)]\<rparr>"
    by (auto simp: applyExplainUIP_Some)
  from explainLoop_steps[OF t] obtain n where n: "explainSteps n ?s0 = t" ..
  have st: "s3 = (explainSteps n ?s0)\<lparr>s_c := s_c s3\<rparr>"
    unfolding n by (subst (1 2) s3) simp
  show "\<exists>s3 n a b.
            applyExplainUIP ?o ?s0 = Some s3 \<and> cN s3 = 1 \<and>
            s3 = (explainSteps n ?s0)\<lparr>s_c := s_c s3\<rparr> \<and>
            set (s_c s3) = cP s3 \<union> {Negate (cL s3)} \<and> cH s3 = cP s3 \<union> {Negate (cL s3)} \<and>
            lits (s_m s1) = a @ cL s3 # b \<and> Negate (cL s3) \<in> cH s3 \<and>
            (\<forall>x\<in>set b. Negate x \<notin> cH s3)"
    by (intro exI[of _ s3] exI[of _ n] exI[of _ a] exI[of _ b] conjI ae A(2) st cs ch sp hL nb)
qed


text \<open>
  The theorem at the formula \<open>{[4], [-4, -1, -2, 3], [-4, -1, -2, -3]}\<close>, keys ascending.
  Round 0 propagates 4 at level 0 and decides 1, round 1 decides 2, round 2 propagates 3
  and finds \<open>[-4, -1, -2, -3]\<close> falsified. The analysis starts with \<open>-1\<close>, \<open>-2\<close> and
  \<open>-3\<close> in \<^verbatim>\<open>cH\<close> and ends after one pass with the clause \<open>[-1, -2]\<close>; \<open>-4\<close>, whose
  negation is a fact of level 0, is in \<^verbatim>\<open>cH\<close> at no time.
\<close>

theorem analysis_learned_clause_witness:
  "s_m (AddFormula [[4], [- 4, - 1, - 2, 3], [- 4, - 1, - 2, - 3]] New) = newTrail \<and>
   enumerates ascending \<and>
   (\<exists>s s1 s3.
      rounds (\<lambda>j. ascending) 2 (AddFormula [[4], [- 4, - 1, - 2, 3], [- 4, - 1, - 2, - 3]] New) =
        Some s \<and>
      unitPropagate s = Inr s1 \<and> lits (s_m s1) = [4, 1, 2, 3] \<and>
      IsFormulaFalse (s_m s1) (s_f s1) = Some [- 4, - 1, - 2, - 3] \<and>
      DecisionsLen (s_m s1) = 2 \<and> Level (s_m s1) (Negate (- 4)) = 0 \<and>
      cH (applyConflict [- 4, - 1, - 2, - 3] s1) = {- 1, - 2, - 3} \<and>
      cN (applyConflict [- 4, - 1, - 2, - 3] s1) = 2 \<and>
      applyExplainUIP ascending (applyConflict [- 4, - 1, - 2, - 3] s1) = Some s3 \<and>
      cH (explainSteps 1 (applyConflict [- 4, - 1, - 2, - 3] s1)) = {- 1, - 2} \<and>
      cN (explainSteps 1 (applyConflict [- 4, - 1, - 2, - 3] s1)) = 1 \<and>
      cN s3 = 1 \<and> cP s3 = {- 1} \<and> cL s3 = 2 \<and> cH s3 = {- 1, - 2} \<and>
      set (s_c s3) = {- 1, - 2} \<and> s_c s3 = [- 1, - 2] \<and>
      (\<forall>n. - 4 \<notin> cH (explainSteps n (applyConflict [- 4, - 1, - 2, - 3] s1))))"
proof -
  define a where "a = AddFormula [[4], [- 4, - 1, - 2, 3], [- 4, - 1, - 2, - 3]] New"
  define s where "s = the (rounds (\<lambda>j. ascending) 2 a)"
  define s1 where "s1 = projr (unitPropagate s)"
  define t0 where "t0 = applyConflict [- 4, - 1, - 2, - 3] s1"
  define t3 where "t3 = the (applyExplainUIP ascending t0)"
  have a0: "s_m a = newTrail"
    by (simp add: a_def AddFormula_def New_def)
  have "case rounds (\<lambda>j. ascending) 2 a of None \<Rightarrow> False | Some _ \<Rightarrow> True"
    unfolding a_def by code_simp
  then have r: "rounds (\<lambda>j. ascending) 2 a = Some s"
    by (auto simp: s_def split: option.splits)
  have "case unitPropagate s of Inl _ \<Rightarrow> False | Inr _ \<Rightarrow> True"
    unfolding s_def a_def by code_simp
  then have up: "unitPropagate s = Inr s1"
    by (auto simp: s1_def split: sum.splits)
  have l1: "lits (s_m s1) = [4, 1, 2, 3]"
    unfolding s1_def s_def a_def by code_simp
  have cf: "IsFormulaFalse (s_m s1) (s_f s1) = Some [- 4, - 1, - 2, - 3]"
    unfolding s1_def s_def a_def by code_simp
  have dl: "DecisionsLen (s_m s1) = 2"
    unfolding s1_def s_def a_def by code_simp
  have lv: "Level (s_m s1) 4 = 0"
    unfolding s1_def s_def a_def by code_simp
  have h0: "cH t0 = {- 1, - 2, - 3}"
    unfolding t0_def s1_def s_def a_def by code_simp
  have n0: "cN t0 = 2"
    unfolding t0_def s1_def s_def a_def by code_simp
  have p3: "cP t3 = {- 1}"
    unfolding t3_def t0_def s1_def s_def a_def by code_simp
  have c3: "cL t3 = 2"
    unfolding t3_def t0_def s1_def s_def a_def by code_simp
  have sc3: "s_c t3 = [- 1, - 2]"
    unfolding t3_def t0_def s1_def s_def a_def by code_simp
  have st: "cH (explainSteps 1 t0) = {- 1, - 2}" "cN (explainSteps 1 t0) = 1"
    unfolding t0_def s1_def s_def a_def by code_simp+
  from dl have d0: "DecisionsLen (s_m s1) \<noteq> 0" by simp
  note T = analysis_learned_clause[of a "\<lambda>j. ascending" 2 s s1 "[- 4, - 1, - 2, - 3]",
      OF a0 _ r up cf d0, folded t0_def]
  from T enumerates_ascending obtain s3 where
    U: "applyExplainUIP ascending t0 = Some s3" "cN s3 = 1"
      "set (s_c s3) = cP s3 \<union> {Negate (cL s3)}" "cH s3 = cP s3 \<union> {Negate (cL s3)}"
    by auto
  from U(1) have e3: "s3 = t3"
    by (simp add: t3_def)
  from T enumerates_ascending
  have L: "\<forall>n. \<forall>l\<in>cH (explainSteps n t0). 0 < Level (s_m s1) (Negate l)"
    by auto
  have never: "\<forall>n. - 4 \<notin> cH (explainSteps n t0)"
  proof (intro allI notI)
    fix n assume "- 4 \<in> cH (explainSteps n t0)"
    with L have "0 < Level (s_m s1) (Negate (- 4))" by blast
    with lv show False by (simp add: Negate_def)
  qed
  have h3: "cH t3 = {- 1, - 2}" and cs3: "set (s_c t3) = {- 1, - 2}"
    using U(3,4) by (auto simp: e3 p3 c3 Negate_def)
  have "\<exists>s s1 s3.
      rounds (\<lambda>j. ascending) 2 a = Some s \<and>
      unitPropagate s = Inr s1 \<and> lits (s_m s1) = [4, 1, 2, 3] \<and>
      IsFormulaFalse (s_m s1) (s_f s1) = Some [- 4, - 1, - 2, - 3] \<and>
      DecisionsLen (s_m s1) = 2 \<and> Level (s_m s1) (Negate (- 4)) = 0 \<and>
      cH (applyConflict [- 4, - 1, - 2, - 3] s1) = {- 1, - 2, - 3} \<and>
      cN (applyConflict [- 4, - 1, - 2, - 3] s1) = 2 \<and>
      applyExplainUIP ascending (applyConflict [- 4, - 1, - 2, - 3] s1) = Some s3 \<and>
      cH (explainSteps 1 (applyConflict [- 4, - 1, - 2, - 3] s1)) = {- 1, - 2} \<and>
      cN (explainSteps 1 (applyConflict [- 4, - 1, - 2, - 3] s1)) = 1 \<and>
      cN s3 = 1 \<and> cP s3 = {- 1} \<and> cL s3 = 2 \<and> cH s3 = {- 1, - 2} \<and>
      set (s_c s3) = {- 1, - 2} \<and> s_c s3 = [- 1, - 2] \<and>
      (\<forall>n. - 4 \<notin> cH (explainSteps n (applyConflict [- 4, - 1, - 2, - 3] s1)))"
    using r up l1 cf dl lv h0 n0 U(1,2) st p3 c3 h3 cs3 sc3 never unfolding e3 t0_def
    by (intro exI[of _ s] exI[of _ s1] exI[of _ t3] conjI) (simp_all add: Negate_def)
  with a0 enumerates_ascending show ?thesis
    unfolding a_def by blast
qed

section \<open>Soundness: the claim\<close>

text \<open>What the loop returns, it returns from some round of the run.\<close>

lemma solveLoop_returns:
  "solveLoop ord s = Some r \<Longrightarrow> \<exists>k t. rounds ord k s = Some t \<and> solveRound (ord k) t = Return r"
proof (induction rule: solveLoop.raw_induct[rotated 1, consumes 1])
  case (1 solveLoop ord s r)
  show ?case
  proof (cases "solveRound (ord 0) s")
    case (Return x)
    with 1(2) have "rounds ord 0 s = Some s \<and> solveRound (ord 0) s = Return r" by simp
    then show ?thesis by blast
  next
    case (Continue t)
    with 1(2) have "solveLoop (\<lambda>k. ord (Suc k)) t = Some r" by simp
    from 1(1)[OF this] obtain k u where "rounds (\<lambda>j. ord (Suc j)) k t = Some u"
      "solveRound (ord (Suc k)) u = Return r" by blast
    with Continue have "rounds ord (Suc k) s = Some u \<and> solveRound (ord (Suc k)) u = Return r"
      by simp
    then show ?thesis by blast
  next
    case Hang
    with 1(2) show ?thesis by simp
  qed
qed

lemma varsOk_start: "varsOk (AddFormula fm New)"
  by (auto simp: varsOk_def AddFormula_def New_def newTrail_def tvars_def lits_def fvars_def)

lemma start_fields:
  "s_m (AddFormula fm New) = newTrail" "s_f (AddFormula fm New) = fm"
  "result (AddFormula fm New) = satResultUndef" "decideLiterals (AddFormula fm New) = []"
  by (simp_all add: AddFormula_def New_def)

text \<open>
  When every variable of the problem is assigned and no clause of the formula is
  falsified, every clause has a literal that holds.
\<close>

lemma full_assignment_satisfies:
  assumes v: "varsOk s" and full: "Len (s_m s) = card (vars s)"
    and nf: "IsFormulaFalse (s_m s) (s_f s) = None" and cl: "cl \<in> set (s_f s)"
  shows "\<exists>l\<in>set cl. ValueLit (s_m s) l = TriTrue"
proof -
  note V = varsOk_fields[OF v]
  from full have tv: "tvars (s_m s) = vars s"
    by (simp add: Len_vars[OF V(1) V(3)])
  from nf cl have "\<not> IsClauseFalse (s_m s) cl"
    by (simp add: IsFormulaFalse_None)
  then obtain l where l: "l \<in> set cl" and nfl: "ValueLit (s_m s) l \<noteq> TriFalse"
    by (auto simp: IsClauseFalse_iff)
  from l cl have "\<bar>l\<bar> \<in> fvars (s_f s)"
    by (auto simp: fvars_def)
  with V(4) tv have "\<bar>l\<bar> \<in> tvars (s_m s)" by blast
  then have "ValueLit (s_m s) l \<noteq> Undef"
    using ValueLit_Undef_tvars by blast
  with nfl have "ValueLit (s_m s) l = TriTrue"
    by (cases "ValueLit (s_m s) l") simp_all
  with l show ?thesis by blast
qed

text \<open>
  C2. Whenever \<^verbatim>\<open>Solve\<close>, called on a new solver that was given the formula \<open>fm\<close>,
  returns true, the trail it leaves asserts no variable twice, so it is an assignment,
  and every clause of \<open>fm\<close> has a literal that the trail asserts.
\<close>

theorem Solve_sound:
  assumes "\<forall>j. enumerates (ord j)" and "Solve ord (AddFormula fm New) = Some (Inr (True, s'))"
  shows "distinct (map abs (lits (s_m s'))) \<and>
         (\<forall>cl\<in>set fm. \<exists>l\<in>set cl. ValueLit (s_m s') l = TriTrue)"
proof -
  let ?s0 = "AddFormula fm New"
  from assms(2) have sl: "solveLoop ord ?s0 = Some (Inr (True, s'))"
    by (simp add: Solve_def start_fields)
  from solveLoop_returns[OF sl] obtain k t where
    r: "rounds ord k ?s0 = Some t" and ret: "solveRound (ord k) t = Return (Inr (True, s'))"
    by blast
  note I = rounds_inv[OF assms(1) r trailInv_start[OF start_fields(1)]]
  from I(2)[OF varsOk_start] have vt: "varsOk t" .
  from unitPropagate_inv[of t] I(1) vt obtain s1 where
    up: "unitPropagate t = Inr s1" and i1: "trailInv s1" and v1: "varsOk s1"
    by blast
  have e: "s' = s1 \<and> IsFormulaFalse (s_m s1) (s_f s1) = None \<and> Len (s_m s1) = card (vars s1)"
    using ret up
    by (cases "ord k" t rule: solveRound_cases) (auto split: sum.splits prod.splits)
  from solveLoop_grows[OF sl refl] have "\<exists>ls. s_f s' = fm @ ls"
    by (auto simp: grownFrom_def start_fields)
  then have sub: "set fm \<subseteq> set (s_f s')" by auto
  have "\<forall>cl\<in>set fm. \<exists>l\<in>set cl. ValueLit (s_m s') l = TriTrue"
  proof
    fix cl assume "cl \<in> set fm"
    with sub have "cl \<in> set (s_f s1)" using e by blast
    from full_assignment_satisfies[OF v1 _ _ this] e
    show "\<exists>l\<in>set cl. ValueLit (s_m s') l = TriTrue" by simp
  qed
  moreover from i1 e have "distinct (map abs (lits (s_m s')))"
    by (simp add: trailInv_def trailOk_def)
  ultimately show ?thesis by blast
qed

text \<open>
  The theorem at the formula \<open>{[-1, -2, 3], [-1, -2, -3]}\<close>, keys ascending: \<^verbatim>\<open>Solve\<close>
  returns true with the trail 1, -2, 3.
\<close>

theorem Solve_sound_witness:
  "enumerates ascending \<and>
   (\<exists>s'. Solve (\<lambda>k. ascending) (AddFormula [[- 1, - 2, 3], [- 1, - 2, - 3]] New) =
            Some (Inr (True, s')) \<and>
          lits (s_m s') = [1, - 2, 3] \<and>
          distinct (map abs (lits (s_m s'))) \<and>
          list_all (\<lambda>cl. list_ex (\<lambda>l. ValueLit (s_m s') l = TriTrue) cl)
            [[- 1, - 2, 3], [- 1, - 2, - 3]])"
proof -
  define a where "a = AddFormula [[- 1, - 2, 3], [- 1, - 2, - 3]] New"
  define r where "r = Solve (\<lambda>k. ascending) a"
  have "map_option (map_sum id (\<lambda>(b, s). (b, lits (s_m s)))) r = Some (Inr (True, [1, - 2, 3]))"
    unfolding r_def a_def by code_simp
  then obtain s' where s': "r = Some (Inr (True, s'))" and l': "lits (s_m s') = [1, - 2, 3]"
    by (cases r) (auto simp: map_sum_def split: sum.splits)
  from s' have S: "Solve (\<lambda>k. ascending) (AddFormula [[- 1, - 2, 3], [- 1, - 2, - 3]] New) =
      Some (Inr (True, s'))"
    by (simp add: r_def a_def)
  from Solve_sound[of "\<lambda>k. ascending" "[[- 1, - 2, 3], [- 1, - 2, - 3]]" s', OF _ S]
    enumerates_ascending
  have "distinct (map abs (lits (s_m s'))) \<and>
      list_all (\<lambda>cl. list_ex (\<lambda>l. ValueLit (s_m s') l = TriTrue) cl)
        [[- 1, - 2, 3], [- 1, - 2, - 3]]"
    by (simp add: list_all_iff list_ex_iff)
  with S l' enumerates_ascending show ?thesis by blast
qed

section \<open>The measure of the loop\<close>

text \<open>
  The weight of a trail for \<open>N\<close> variables: a literal asserted at level \<open>j\<close> weighs
  \<open>(N + 1) ^ (N - j)\<close>, so one literal at a level outweighs all that can follow at the
  levels above it. \<open>lvl\<close> is the level at which the list starts.
\<close>

fun weightFrom :: "nat \<Rightarrow> nat \<Rightarrow> trailElem list \<Rightarrow> nat" where
  "weightFrom N lvl [] = 0"
| "weightFrom N lvl (e # es) =
     (let l' = (if Decision e then Suc lvl else lvl)
      in Suc N ^ (N - l') + weightFrom N l' es)"

definition weight :: "solver \<Rightarrow> nat" where
  "weight s = weightFrom (card (vars s)) 0 (elems (s_m s))"

lemma weightFrom_append:
  "weightFrom N lvl (xs @ ys) = weightFrom N lvl xs + weightFrom N (lvl + decisions xs) ys"
  by (induction xs arbitrary: lvl) (simp_all add: Let_def)

lemma weightFrom_le: "weightFrom N lvl es \<le> length es * Suc N ^ (N - lvl)"
proof (induction es arbitrary: lvl)
  case Nil
  then show ?case by simp
next
  case (Cons e es)
  define l' where "l' = (if Decision e then Suc lvl else lvl)"
  have p: "Suc N ^ (N - l') \<le> Suc N ^ (N - lvl)"
    by (intro power_increasing) (auto simp: l'_def)
  from Cons.IH[of l'] have "weightFrom N l' es \<le> length es * Suc N ^ (N - l')" .
  also have "\<dots> \<le> length es * Suc N ^ (N - lvl)"
    using p by (rule mult_le_mono2)
  finally have "weightFrom N l' es \<le> length es * Suc N ^ (N - lvl)" .
  with p have "Suc N ^ (N - l') + weightFrom N l' es \<le> Suc (length es) * Suc N ^ (N - lvl)"
    by simp
  then show ?case
    by (simp add: l'_def Let_def)
qed

lemma decisions_le_length: "decisions es \<le> length es"
  by (simp add: decisions_def)

lemma weightFrom_bound:
  assumes "length es \<le> N"
  shows "weightFrom N 0 es \<le> N * Suc N ^ N"
proof -
  from weightFrom_le[of N 0 es] have "weightFrom N 0 es \<le> length es * Suc N ^ N"
    by simp
  also have "\<dots> \<le> N * Suc N ^ N"
    using assms by (rule mult_le_mono1)
  finally show ?thesis .
qed

text \<open>An appended literal adds weight.\<close>

lemma weightFrom_snoc: "weightFrom N 0 es < weightFrom N 0 (es @ [e])"
  by (simp add: weightFrom_append Let_def)

lemma weightFrom_mono: "weightFrom N 0 es \<le> weightFrom N 0 (es @ ms)"
  by (simp add: weightFrom_append)

text \<open>
  A backjump removes the literals above the target level and adds one at the target
  level: the weight goes up.
\<close>

lemma weightFrom_backjump:
  assumes len: "length es \<le> N" and k: "k < decisions es"
  shows "weightFrom N 0 es < weightFrom N 0 (trimElems k es @ [\<lparr>Lit = l, Decision = False\<rparr>])"
proof -
  let ?p = "trimElems k es"
  from trimElems_split[of es k] obtain rest where es: "es = ?p @ rest"
    and r: "rest = [] \<or> (Decision (hd rest) \<and> decisions ?p = k)"
    by blast
  have ne: "rest \<noteq> []"
  proof
    assume "rest = []"
    with es have "decisions es = decisions ?p" by simp
    with decisions_trimElems_le[of k es] k show False by simp
  qed
  with r obtain d rest' where rest: "rest = d # rest'" and d: "Decision d" and dp: "decisions ?p = k"
    by (cases rest) auto
  have W: "weightFrom N 0 es = weightFrom N 0 ?p + weightFrom N k (d # rest')"
    by (subst es) (simp only: weightFrom_append rest dp add_0)
  have "weightFrom N (Suc k) rest' \<le> length rest' * Suc N ^ (N - Suc k)"
    by (rule weightFrom_le)
  with d have 1: "weightFrom N k (d # rest') \<le> length (d # rest') * Suc N ^ (N - Suc k)"
    by (simp add: Let_def)
  from es len have lr: "length (d # rest') \<le> N"
    by (metis le_add2 le_trans length_append rest)
  from k decisions_le_length[of es] len have kN: "k < N" by simp
  then have e: "N - k = Suc (N - Suc k)" by simp
  have "length (d # rest') * Suc N ^ (N - Suc k) < Suc N * Suc N ^ (N - Suc k)"
    using lr by (intro mult_less_mono1) auto
  also have "\<dots> = Suc N ^ (N - k)"
    by (simp only: e power_Suc)
  finally have 2: "weightFrom N k (d # rest') < Suc N ^ (N - k)"
    using 1 by simp
  have "weightFrom N 0 (?p @ [\<lparr>Lit = l, Decision = False\<rparr>]) = weightFrom N 0 ?p + Suc N ^ (N - k)"
    by (simp add: weightFrom_append dp Let_def)
  with W 2 show ?thesis by simp
qed

text \<open>Unit propagation appends literals that are not decisions.\<close>

definition extends :: "solver \<Rightarrow> solver \<Rightarrow> bool" where
  "extends s s' \<longleftrightarrow>
     vars s' = vars s \<and>
     (\<exists>ms. elems (s_m s') = elems (s_m s) @ ms \<and> (\<forall>e\<in>set ms. \<not> Decision e))"

lemma extends_refl: "extends s s"
  by (simp add: extends_def)

lemma extends_pushUnit: "extends s (pushUnit cl l s)"
  by (simp add: extends_def)

lemma extends_trans: "extends s s' \<Longrightarrow> extends s' s'' \<Longrightarrow> extends s s''"
  by (auto simp: extends_def)

lemma unitPropagate_extends: "\<exists>s'. unitPropagate s = Inr s' \<and> extends s s'"
proof (rule unitPropagate_rule)
  show "\<And>s. firstUnit (s_m s) (s_f s) = None \<Longrightarrow> extends s s"
    by (rule extends_refl)
  show "\<And>s cl l. firstUnit (s_m s) (s_f s) = Some (cl, l) \<Longrightarrow>
      IsFormulaFalse (s_m (pushUnit cl l s)) (s_f s) \<noteq> None \<Longrightarrow> extends s (pushUnit cl l s)"
    by (rule extends_pushUnit)
  show "\<And>s cl l s'. firstUnit (s_m s) (s_f s) = Some (cl, l) \<Longrightarrow>
      IsFormulaFalse (s_m (pushUnit cl l s)) (s_f s) = None \<Longrightarrow>
      unitPropagate (pushUnit cl l s) = Inr s' \<Longrightarrow> extends (pushUnit cl l s) s' \<Longrightarrow> extends s s'"
    using extends_pushUnit extends_trans by blast
qed

lemma trimElems_append: "\<exists>r. trimElems k (xs @ ys) = trimElems k xs @ r"
  by (induction xs arbitrary: k) (auto split: nat.splits)

lemma trimElems_trimElems: "trimElems 0 (trimElems k es) = trimElems 0 es"
  by (induction es arbitrary: k) (auto split: nat.splits)

lemma trimElems_0_id: "decisions es = 0 \<Longrightarrow> trimElems 0 es = es"
  by (rule trimElems_id) (simp add: decisions_def)

text \<open>The facts of level 0: the literals of the trail before its first decision.\<close>

lemma level0_append:
  "set (lits (TrimToLevel t 0)) \<subseteq> set (lits (TrimToLevel (t\<lparr>elems := elems t @ ms\<rparr>) 0))"
proof -
  from trimElems_append[of 0 "elems t" ms] obtain r where
    "trimElems 0 (elems t @ ms) = trimElems 0 (elems t) @ r" ..
  then show ?thesis
    by (simp add: TrimToLevel_def lits_def)
qed

lemma extends_facts:
  assumes "extends s s'"
  shows "vars s' = vars s" and "weight s \<le> weight s'"
    and "DecisionsLen (s_m s') = DecisionsLen (s_m s)"
    and "set (lits (TrimToLevel (s_m s) 0)) \<subseteq> set (lits (TrimToLevel (s_m s') 0))"
    and "tvars (s_m s) \<subseteq> tvars (s_m s')"
proof -
  from assms obtain ms where v: "vars s' = vars s"
    and el: "elems (s_m s') = elems (s_m s) @ ms" and nd: "\<forall>e\<in>set ms. \<not> Decision e"
    by (auto simp: extends_def)
  show "vars s' = vars s" by (rule v)
  show "weight s \<le> weight s'"
    by (simp add: weight_def v el weightFrom_mono)
  from nd have "filter Decision ms = []"
    by (simp add: filter_empty_conv)
  then show "DecisionsLen (s_m s') = DecisionsLen (s_m s)"
    by (simp add: DecisionsLen_def el)
  have "s_m s' = (s_m s)\<lparr>elems := elems (s_m s) @ ms\<rparr>"
    using el by simp
  with level0_append[of "s_m s" ms]
  show "set (lits (TrimToLevel (s_m s) 0)) \<subseteq> set (lits (TrimToLevel (s_m s') 0))"
    by simp
  show "tvars (s_m s) \<subseteq> tvars (s_m s')"
    by (auto simp: tvars_def lits_def el)
qed


section \<open>What a round that goes on does to the trail\<close>

lemma solveRound_Continue [consumes 3, case_names backjump decision]:
  assumes inv: "trailInv s" and en: "enumerates ord" and c: "solveRound ord s = Continue t"
  obtains (backjump) s1 k l where "unitPropagate s = Inr s1" "trailInv s1"
      "IsFormulaFalse (s_m s1) (s_f s1) \<noteq> None" "k < CurrentLevel (s_m s1)"
      "ValueLit (TrimToLevel (s_m s1) k) l = Undef"
      "s_m t = Assert (TrimToLevel (s_m s1) k) l False" "vars t = vars s1"
      "decideLiterals t = decideLiterals s1"
  | (decision) s1 l where "unitPropagate s = Inr s1" "trailInv s1"
      "IsFormulaFalse (s_m s1) (s_f s1) = None" "Len (s_m s1) \<noteq> card (vars s1)"
      "ValueLit (s_m s1) l = Undef" "s_m t = Assert (s_m s1) l True" "vars t = vars s1"
      "decideLiterals s1 = [] \<longrightarrow> decideLiterals t = []"
proof (cases ord s rule: solveRound_cases)
  case (conflict0 s1 cc)
  with c show ?thesis by simp
next
  case (hang s1 cc)
  with c show ?thesis by simp
next
  case (learn s1 cc s3)
  from unitPropagate_inv[of s] learn(1) inv have i1: "trailInv s1" by auto
  then have ok: "trailOk (s_m s1)" by (simp add: trailInv_def)
  from analysis_result[OF i1 learn(2), of ord] learn(3,4) obtain a where
    A: "explaining s3 a" "cN s3 = 1" "s_c s3 = ord (cP s3) @ [Negate (cL s3)]"
      "s_m s3 = s_m s1" "s_f s3 = s_f s1" "reasonMap s3 = reasonMap s1" "vars s3 = vars s1"
      "decideLiterals s3 = decideLiterals s1"
    by auto
  have ok3: "trailOk (s_m s3)" using ok by (simp only: A(4))
  note B = backjump_facts[OF ok3 A(1) A(2) en, unfolded A(4)]
  define s4 where "s4 = (if 1 < length (s_c s3) then s3\<lparr>s_f := s_f s3 @ [s_c s3]\<rparr> else s3)"
  have d4: "s4 = s3 \<or> s4 = s3\<lparr>s_f := s_f s3 @ [s_c s3]\<rparr>"
    by (simp add: s4_def)
  then have v4: "vars s4 = vars s3 \<and> decideLiterals s4 = decideLiterals s3"
    by (rule disjE) simp_all
  from backjump_step[OF i1 A(1) A(2) en A(3) A(4) A(5) A(6) d4] obtain s5 where
    bj: "applyBackjump ord s4 = Inr s5"
    and s5: "s5 = s4\<lparr>s_m := Assert (TrimToLevel (s_m s1) (backjumpLevel ord s3)) (Negate (cL s3)) False,
                    reasonMap := (reasonMap s1)(Negate (cL s3) \<mapsto> s_c s3)\<rparr>"
    by blast
  have "solveRound ord s = Continue s5"
    using learn(5) bj by (simp add: s4_def)
  with c have t: "t = s5" by simp
  show ?thesis
  proof (rule backjump[of s1 "backjumpLevel ord s3" "Negate (cL s3)"])
    show "unitPropagate s = Inr s1" by (rule learn(1))
    show "trailInv s1" by (rule i1)
    show "IsFormulaFalse (s_m s1) (s_f s1) \<noteq> None" using learn(2) by simp
    show "backjumpLevel ord s3 < CurrentLevel (s_m s1)" by (rule B(2))
    show "ValueLit (TrimToLevel (s_m s1) (backjumpLevel ord s3)) (Negate (cL s3)) = Undef"
      by (rule B(3))
    show "s_m t = Assert (TrimToLevel (s_m s1) (backjumpLevel ord s3)) (Negate (cL s3)) False"
      by (simp add: t s5)
    show "vars t = vars s1" using v4 by (simp add: t s5 A(7))
    show "decideLiterals t = decideLiterals s1" using v4 by (simp add: t s5 A(8))
  qed
next
  case (sat s1)
  with c show ?thesis by simp
next
  case (decide s1)
  from unitPropagate_inv[of s] decide(1) inv have i1: "trailInv s1" by auto
  from c decide(4) obtain l s2 s3 where sel: "selectLiteral ord s1 = Inr (l, s2)"
    and asl: "assertLiteral l True s2 = Inr s3" and t: "t = s3"
    by (auto split: sum.splits prod.splits)
  note D = decide_step[OF i1 decide(2) sel asl]
  note f = selectLiteral_frame[OF sel]
  show ?thesis
  proof (rule decision[of s1 l])
    show "unitPropagate s = Inr s1" by (rule decide(1))
    show "trailInv s1" by (rule i1)
    show "IsFormulaFalse (s_m s1) (s_f s1) = None" by (rule decide(2))
    show "Len (s_m s1) \<noteq> card (vars s1)" by (rule decide(3))
    show "ValueLit (s_m s1) l = Undef" by (rule D(3))
    show "s_m t = Assert (s_m s1) l True" by (simp add: t D(2))
    show "vars t = vars s1" by (simp add: t D(2) f)
    show "decideLiterals s1 = [] \<longrightarrow> decideLiterals t = []"
      using selectLiteral_Inr(3)[OF sel] by (simp add: t D(2))
  qed
qed

lemma trail_length:
  assumes "trailOk (s_m s)" and "varsOk s"
  shows "length (elems (s_m s)) \<le> card (vars s)"
proof -
  note V = varsOk_fields[OF assms(2)]
  from assms(1) have "card (tvars (s_m s)) = length (lits (s_m s))"
    unfolding trailOk_def tvars_def by (metis distinct_card length_map list.set_map)
  moreover have "card (tvars (s_m s)) \<le> card (vars s)"
    using V(1) V(3) by (rule card_mono)
  ultimately show ?thesis by (simp add: lits_def)
qed

lemma weight_bound:
  assumes "trailInv s" and "varsOk s"
  shows "weight s \<le> card (vars s) * Suc (card (vars s)) ^ card (vars s)"
  unfolding weight_def using assms
  by (intro weightFrom_bound trail_length) (simp_all add: trailInv_def)

text \<open>
  Every round that goes on keeps the facts of level 0 and either ends in a backjump, which
  lowers the decision level and, when it goes to level 0, adds a fact of level 0, or ends
  in a decision, which opens a level and assigns one more variable. Either way the weight
  of the trail goes up.
\<close>

lemma round_progress:
  assumes inv: "trailInv s" and en: "enumerates ord" and c: "solveRound ord s = Continue t"
  shows "set (lits (TrimToLevel (s_m s) 0)) \<subseteq> set (lits (TrimToLevel (s_m t) 0))"
    and "CurrentLevel (s_m t) < CurrentLevel (s_m s) \<and>
           (CurrentLevel (s_m t) = 0 \<longrightarrow>
              set (lits (TrimToLevel (s_m s) 0)) \<subset> set (lits (TrimToLevel (s_m t) 0))) \<or>
         CurrentLevel (s_m t) = Suc (CurrentLevel (s_m s)) \<and> Len (s_m s) < Len (s_m t)"
    and "vars t = vars s"
    and "decideLiterals s = [] \<Longrightarrow> decideLiterals t = []"
    and "varsOk s \<Longrightarrow> weight s < weight t"
proof -
  let ?z = "\<lambda>t. set (lits (TrimToLevel t 0))"
  have "?z (s_m s) \<subseteq> ?z (s_m t) \<and>
      (CurrentLevel (s_m t) < CurrentLevel (s_m s) \<and>
           (CurrentLevel (s_m t) = 0 \<longrightarrow> ?z (s_m s) \<subset> ?z (s_m t)) \<or>
       CurrentLevel (s_m t) = Suc (CurrentLevel (s_m s)) \<and> Len (s_m s) < Len (s_m t)) \<and>
      vars t = vars s \<and> (decideLiterals s = [] \<longrightarrow> decideLiterals t = []) \<and>
      (varsOk s \<longrightarrow> weight s < weight t)"
    using inv en c
  proof (cases rule: solveRound_Continue)
    case (backjump s1 k l)
    from unitPropagate_extends[of s] backjump(1) have "extends s s1" by auto
    note E = extends_facts[OF this]
    note d1 = unitPropagate_frame(4)[OF backjump(1)]
    let ?p = "trimElems k (elems (s_m s1))"
    have el: "elems (s_m t) = ?p @ [\<lparr>Lit = l, Decision = False\<rparr>]"
      by (simp add: backjump(6) TrimToLevel_def)
    from backjump(4) have kd: "k < decisions (elems (s_m s1))"
      by (simp add: CurrentLevel_def DecisionsLen_decisions)
    have cl: "CurrentLevel (s_m t) = k"
      using backjump(4)
      by (simp add: backjump(6) CurrentLevel_def DecisionsLen_Assert DecisionsLen_TrimToLevel)
    have z1: "?z (s_m s1) \<subseteq> ?z (s_m t)"
    proof -
      from trimElems_append[of 0 ?p "[\<lparr>Lit = l, Decision = False\<rparr>]"] obtain r where
        "trimElems 0 (elems (s_m t)) = trimElems 0 ?p @ r"
        by (auto simp: el)
      then show ?thesis
        by (simp add: TrimToLevel_def lits_def trimElems_trimElems)
    qed
    have z2: "?z (s_m s1) \<subset> ?z (s_m t)" if "k = 0"
    proof -
      have "decisions (?p @ [\<lparr>Lit = l, Decision = False\<rparr>]) = 0"
        using decisions_trimElems_le[of k "elems (s_m s1)"] that by simp
      then have "trimElems 0 (elems (s_m t)) = ?p @ [\<lparr>Lit = l, Decision = False\<rparr>]"
        unfolding el by (rule trimElems_0_id)
      then have "?z (s_m t) = insert l (?z (s_m s1))"
        using that by (simp add: TrimToLevel_def lits_def)
      moreover from backjump(5) that have "l \<notin> ?z (s_m s1)"
        by (simp add: ValueLit_Undef)
      ultimately show ?thesis by auto
    qed
    have w: "weight s1 < weight t" if "varsOk s"
    proof -
      from unitPropagate_inv[of s] backjump(1) that have "varsOk s1" by auto
      from trail_length[OF _ this] backjump(2)
      have "length (elems (s_m s1)) \<le> card (vars s1)"
        by (simp add: trailInv_def)
      from weightFrom_backjump[OF this kd, of l] show ?thesis
        by (simp add: weight_def el backjump(7))
    qed
    from E z1 z2 cl backjump(4) w show ?thesis
      by (auto simp: backjump(7) backjump(8) d1 CurrentLevel_def)
  next
    case (decision s1 l)
    from unitPropagate_extends[of s] decision(1) have "extends s s1" by auto
    note E = extends_facts[OF this]
    note d1 = unitPropagate_frame(4)[OF decision(1)]
    have el: "s_m t = (s_m s1)\<lparr>elems := elems (s_m s1) @ [\<lparr>Lit = l, Decision = True\<rparr>]\<rparr>"
      by (simp add: decision(6) Assert_def)
    have z1: "?z (s_m s1) \<subseteq> ?z (s_m t)"
      unfolding el by (rule level0_append)
    have cl: "CurrentLevel (s_m t) = Suc (CurrentLevel (s_m s))"
      by (simp add: decision(6) CurrentLevel_def DecisionsLen_Assert E(3))
    have "\<bar>l\<bar> \<notin> tvars (s_m s1)"
      by (rule ValueLit_Undef_tvars[OF decision(5)])
    moreover have "finite (tvars (s_m s1))"
      by (simp add: tvars_def)
    ultimately have "Len (s_m t) = Suc (Len (s_m s1))"
      by (simp add: Len_def decision(6) tvars_Assert)
    moreover have "Len (s_m s) \<le> Len (s_m s1)"
      unfolding Len_def by (rule card_mono[OF _ E(5)]) (simp add: tvars_def)
    ultimately have ln: "Len (s_m s) < Len (s_m t)" by simp
    have w: "weight s1 < weight t"
      by (simp add: weight_def decision(6) decision(7) weightFrom_snoc)
    from E z1 cl ln w decision(8) show ?thesis
      by (auto simp: decision(7) d1)
  qed
  then show "set (lits (TrimToLevel (s_m s) 0)) \<subseteq> set (lits (TrimToLevel (s_m t) 0))"
    and "CurrentLevel (s_m t) < CurrentLevel (s_m s) \<and>
           (CurrentLevel (s_m t) = 0 \<longrightarrow>
              set (lits (TrimToLevel (s_m s) 0)) \<subset> set (lits (TrimToLevel (s_m t) 0))) \<or>
         CurrentLevel (s_m t) = Suc (CurrentLevel (s_m s)) \<and> Len (s_m s) < Len (s_m t)"
    and "vars t = vars s"
    and "decideLiterals s = [] \<Longrightarrow> decideLiterals t = []"
    and "varsOk s \<Longrightarrow> weight s < weight t"
    by blast+
qed


section \<open>Termination: the claim\<close>

text \<open>
  With no override literals, a round on a state that keeps the invariants does not panic:
  it returns a result or goes on.
\<close>

lemma solveRound_no_panic:
  assumes inv: "trailInv s" and v: "varsOk s" and en: "enumerates ord"
    and d: "decideLiterals s = []"
  shows "(\<exists>b s'. solveRound ord s = Return (Inr (b, s'))) \<or> (\<exists>t. solveRound ord s = Continue t)"
proof (cases ord s rule: solveRound_cases)
  case (conflict0 s1 cc)
  from conflict0(4) show ?thesis by blast
next
  case (hang s1 cc)
  with solveRound_inv(1)[OF inv en] show ?thesis by simp
next
  case (learn s1 cc s3)
  from unitPropagate_inv[of s] learn(1) inv have i1: "trailInv s1" by auto
  from analysis_result[OF i1 learn(2), of ord] learn(3,4) obtain a where
    A: "explaining s3 a" "cN s3 = 1" "s_c s3 = ord (cP s3) @ [Negate (cL s3)]"
      "s_m s3 = s_m s1" "s_f s3 = s_f s1" "reasonMap s3 = reasonMap s1"
    by auto
  define s4 where "s4 = (if 1 < length (s_c s3) then s3\<lparr>s_f := s_f s3 @ [s_c s3]\<rparr> else s3)"
  have "s4 = s3 \<or> s4 = s3\<lparr>s_f := s_f s3 @ [s_c s3]\<rparr>"
    by (simp add: s4_def)
  from backjump_step[OF i1 A(1) A(2) en A(3) A(4) A(5) A(6) this] obtain s5 where
    "applyBackjump ord s4 = Inr s5"
    by blast
  with learn(5) have "solveRound ord s = Continue s5"
    by (simp add: s4_def)
  then show ?thesis by blast
next
  case (sat s1)
  from sat(4) show ?thesis by blast
next
  case (decide s1)
  from unitPropagate_inv[of s] decide(1) v have v1: "varsOk s1" by auto
  have d1: "decideLiterals s1 = []"
    using unitPropagate_frame(4)[OF decide(1)] d by simp
  from decide_total[OF v1 en decide(3) d1] decide(4) show ?thesis
    by auto
qed

text \<open>A round that returns, returns from a full assignment or from a conflict at level 0.\<close>

lemma solveRound_Return:
  assumes "solveRound ord s = Return (Inr (b, s'))"
  shows "if b then IsFormulaFalse (s_m s') (s_f s') = None \<and> Len (s_m s') = card (vars s')
         else IsFormulaFalse (s_m s') (s_f s') \<noteq> None \<and> CurrentLevel (s_m s') = 0"
proof (cases ord s rule: solveRound_cases)
  case (conflict0 s1 cc)
  note f = sameProblem_fields[OF applyConflict_same[of s1 cc]]
  from conflict0 assms have "\<not> b" "s' = applyConflict cc s1" by simp_all
  with conflict0(2,3) show ?thesis
    by (simp add: f CurrentLevel_def)
next
  case (hang s1 cc)
  with assms show ?thesis by simp
next
  case (learn s1 cc s3)
  with assms show ?thesis by (auto split: sum.splits)
next
  case (sat s1)
  with assms show ?thesis by auto
next
  case (decide s1)
  with assms show ?thesis by (auto split: sum.splits prod.splits)
qed

lemma solveLoop_total:
  assumes "\<forall>j. enumerates (ord j)" and "trailInv s" and "varsOk s" and "decideLiterals s = []"
  shows "\<exists>b s'. solveLoop ord s = Some (Inr (b, s'))"
  using assms
proof (induction "card (vars s) * Suc (card (vars s)) ^ card (vars s) - weight s"
    arbitrary: s ord rule: less_induct)
  case less
  from less.prems(1) have e0: "enumerates (ord 0)" and e: "\<forall>j. enumerates (ord (Suc j))"
    by simp_all
  from solveRound_no_panic[OF less.prems(2) less.prems(3) e0 less.prems(4)]
  show ?case
  proof (elim disjE exE)
    fix b s' assume "solveRound (ord 0) s = Return (Inr (b, s'))"
    from solveLoop_Return[of ord, OF this] show ?thesis by blast
  next
    fix t assume c: "solveRound (ord 0) s = Continue t"
    note I = solveRound_inv[OF less.prems(2) e0]
    note P = round_progress[OF less.prems(2) e0 c]
    have it: "trailInv t" by (rule I(2)[OF c])
    have vt: "varsOk t" by (rule I(3)[OF c less.prems(3)])
    have dt: "decideLiterals t = []" by (rule P(4)[OF less.prems(4)])
    from weight_bound[OF it vt] P(5)[OF less.prems(3)]
    have "card (vars t) * Suc (card (vars t)) ^ card (vars t) - weight t <
        card (vars s) * Suc (card (vars s)) ^ card (vars s) - weight s"
      by (simp add: P(3))
    from less.hyps[OF this e it vt dt] solveLoop_Continue[of ord, OF c] show ?thesis
      by simp
  qed
qed

text \<open>
  C3. \<^verbatim>\<open>Solve\<close>, called on a new solver that was given the formula \<open>fm\<close>, returns: after
  some number \<open>k\<close> of rounds that go on, round \<open>k\<close> returns, true from a trail that
  assigns every variable and falsifies no clause, or false from a conflict at level 0.
  Every round that goes on keeps the facts of level 0, and it either lowers the decision
  level by a backjump, adding a fact of level 0 when the backjump goes to level 0, or raises
  the level by one with a decision that assigns one more variable.
\<close>

theorem Solve_terminates:
  assumes "\<forall>j. enumerates (ord j)"
  shows "(\<exists>b s' k t.
            Solve ord (AddFormula fm New) = Some (Inr (b, s')) \<and>
            rounds ord k (AddFormula fm New) = Some t \<and>
            solveRound (ord k) t = Return (Inr (b, s')) \<and>
            (if b then IsFormulaFalse (s_m s') (s_f s') = None \<and> Len (s_m s') = card (vars s')
             else IsFormulaFalse (s_m s') (s_f s') \<noteq> None \<and> CurrentLevel (s_m s') = 0)) \<and>
         (\<forall>k s t.
            rounds ord k (AddFormula fm New) = Some s \<and> solveRound (ord k) s = Continue t \<longrightarrow>
            set (lits (TrimToLevel (s_m s) 0)) \<subseteq> set (lits (TrimToLevel (s_m t) 0)) \<and>
            (CurrentLevel (s_m t) < CurrentLevel (s_m s) \<and>
               (CurrentLevel (s_m t) = 0 \<longrightarrow>
                  set (lits (TrimToLevel (s_m s) 0)) \<subset> set (lits (TrimToLevel (s_m t) 0))) \<or>
             CurrentLevel (s_m t) = Suc (CurrentLevel (s_m s)) \<and> Len (s_m s) < Len (s_m t)))"
proof (intro conjI allI impI)
  let ?s0 = "AddFormula fm New"
  have i0: "trailInv ?s0" by (rule trailInv_start[OF start_fields(1)])
  from solveLoop_total[OF assms i0 varsOk_start start_fields(4)] obtain b s' where
    sl: "solveLoop ord ?s0 = Some (Inr (b, s'))"
    by blast
  then have S: "Solve ord ?s0 = Some (Inr (b, s'))"
    by (simp add: Solve_def start_fields)
  from solveLoop_returns[OF sl] obtain k t where
    r: "rounds ord k ?s0 = Some t" and ret: "solveRound (ord k) t = Return (Inr (b, s'))"
    by blast
  from S r ret solveRound_Return[OF ret]
  show "\<exists>b s' k t.
            Solve ord ?s0 = Some (Inr (b, s')) \<and> rounds ord k ?s0 = Some t \<and>
            solveRound (ord k) t = Return (Inr (b, s')) \<and>
            (if b then IsFormulaFalse (s_m s') (s_f s') = None \<and> Len (s_m s') = card (vars s')
             else IsFormulaFalse (s_m s') (s_f s') \<noteq> None \<and> CurrentLevel (s_m s') = 0)"
    by blast
next
  fix k s t
  assume a: "rounds ord k (AddFormula fm New) = Some s \<and> solveRound (ord k) s = Continue t"
  from assms have en: "enumerates (ord k)" by simp
  from a have r: "rounds ord k (AddFormula fm New) = Some s" and c: "solveRound (ord k) s = Continue t"
    by simp_all
  have "trailInv s"
    by (rule rounds_inv(1)[OF assms r trailInv_start[OF start_fields(1)]])
  from round_progress(1,2)[OF this en c]
  show "set (lits (TrimToLevel (s_m s) 0)) \<subseteq> set (lits (TrimToLevel (s_m t) 0))"
    and "CurrentLevel (s_m t) < CurrentLevel (s_m s) \<and>
               (CurrentLevel (s_m t) = 0 \<longrightarrow>
                  set (lits (TrimToLevel (s_m s) 0)) \<subset> set (lits (TrimToLevel (s_m t) 0))) \<or>
             CurrentLevel (s_m t) = Suc (CurrentLevel (s_m s)) \<and> Len (s_m s) < Len (s_m t)"
    by blast+
qed


text \<open>
  The theorem at the formula \<open>{[1, 2], [1, -2], [-1, 2], [-1, -2]}\<close>, keys ascending.
  \<^verbatim>\<open>Solve\<close> returns false from a conflict at level 0. Round 0 decides 1: the level goes
  from 0 to 1 and one more variable is assigned. Round 1 propagates 2, finds \<open>[-1, -2]\<close>
  falsified, learns \<open>[-1]\<close> and backjumps to level 0, where \<open>-1\<close> is a new fact.
\<close>

theorem Solve_terminates_witness:
  "enumerates ascending \<and>
   (\<exists>s'. Solve (\<lambda>k. ascending) (AddFormula [[1, 2], [1, - 2], [- 1, 2], [- 1, - 2]] New) =
            Some (Inr (False, s')) \<and>
          IsFormulaFalse (s_m s') (s_f s') \<noteq> None \<and> CurrentLevel (s_m s') = 0) \<and>
   (\<exists>s t. rounds (\<lambda>k. ascending) 0 (AddFormula [[1, 2], [1, - 2], [- 1, 2], [- 1, - 2]] New) =
             Some s \<and>
          solveRound ascending s = Continue t \<and> lits (s_m s) = [] \<and> lits (s_m t) = [1] \<and>
          CurrentLevel (s_m t) = Suc (CurrentLevel (s_m s)) \<and> Len (s_m s) < Len (s_m t)) \<and>
   (\<exists>s t. rounds (\<lambda>k. ascending) 1 (AddFormula [[1, 2], [1, - 2], [- 1, 2], [- 1, - 2]] New) =
             Some s \<and>
          solveRound ascending s = Continue t \<and> lits (s_m s) = [1] \<and> lits (s_m t) = [- 1] \<and>
          CurrentLevel (s_m t) < CurrentLevel (s_m s) \<and> CurrentLevel (s_m t) = 0 \<and>
          set (lits (TrimToLevel (s_m s) 0)) \<subset> set (lits (TrimToLevel (s_m t) 0)))"
proof -
  define u where "u = AddFormula [[1, 2], [1, - 2], [- 1, 2], [- 1, - 2]] New"
  define t1 where "t1 = (case solveRound ascending u of Continue t \<Rightarrow> t | _ \<Rightarrow> u)"
  define t2 where "t2 = (case solveRound ascending t1 of Continue t \<Rightarrow> t | _ \<Rightarrow> u)"
  note T = Solve_terminates[of "\<lambda>k. ascending" "[[1, 2], [1, - 2], [- 1, 2], [- 1, - 2]]",
      folded u_def]
  have en: "\<forall>j. enumerates ((\<lambda>k. ascending) j)"
    by (simp add: enumerates_ascending)
  have "map_option (map_sum id fst) (Solve (\<lambda>k. ascending) u) = Some (Inr False)"
    unfolding u_def by code_simp
  with T[OF en] have 1: "\<exists>s'. Solve (\<lambda>k. ascending) u = Some (Inr (False, s')) \<and>
      IsFormulaFalse (s_m s') (s_f s') \<noteq> None \<and> CurrentLevel (s_m s') = 0"
    by (auto simp: map_sum_def split: if_splits)
  have "case solveRound ascending u of Continue _ \<Rightarrow> True | _ \<Rightarrow> False"
    unfolding u_def by code_simp
  then have c1: "solveRound ascending u = Continue t1"
    by (auto simp: t1_def split: round.splits)
  have "case solveRound ascending t1 of Continue _ \<Rightarrow> True | _ \<Rightarrow> False"
    unfolding t1_def u_def by code_simp
  then have c2: "solveRound ascending t1 = Continue t2"
    by (auto simp: t2_def split: round.splits)
  have r0: "rounds (\<lambda>k. ascending) 0 u = Some u" by simp
  have r1: "rounds (\<lambda>k. ascending) 1 u = Some t1"
    using c1 by simp
  have l0: "lits (s_m u) = []" "CurrentLevel (s_m u) = 0"
    unfolding u_def by code_simp+
  have l1: "lits (s_m t1) = [1]" "CurrentLevel (s_m t1) = 1"
    unfolding t1_def u_def by code_simp+
  have l2: "lits (s_m t2) = [- 1]" "CurrentLevel (s_m t2) = 0"
    unfolding t2_def t1_def u_def by code_simp+
  note T2 = T[OF en, THEN conjunct2, rule_format]
  from T2[of 0 u t1, OF conjI[OF r0 c1]] l0(2) l1(2)
  have 2: "CurrentLevel (s_m t1) = Suc (CurrentLevel (s_m u)) \<and> Len (s_m u) < Len (s_m t1)"
    by simp
  from T2[of 1 t1 t2, OF conjI[OF r1 c2]] l1(2) l2(2)
  have 3: "CurrentLevel (s_m t2) < CurrentLevel (s_m t1) \<and> CurrentLevel (s_m t2) = 0 \<and>
      set (lits (TrimToLevel (s_m t1) 0)) \<subset> set (lits (TrimToLevel (s_m t2) 0))"
    by simp
  have 4: "\<exists>s t. rounds (\<lambda>k. ascending) 0 u = Some s \<and>
          solveRound ascending s = Continue t \<and> lits (s_m s) = [] \<and> lits (s_m t) = [1] \<and>
          CurrentLevel (s_m t) = Suc (CurrentLevel (s_m s)) \<and> Len (s_m s) < Len (s_m t)"
    using r0 c1 l0(1) l1(1) 2 by blast
  have 5: "\<exists>s t. rounds (\<lambda>k. ascending) 1 u = Some s \<and>
          solveRound ascending s = Continue t \<and> lits (s_m s) = [1] \<and> lits (s_m t) = [- 1] \<and>
          CurrentLevel (s_m t) < CurrentLevel (s_m s) \<and> CurrentLevel (s_m t) = 0 \<and>
          set (lits (TrimToLevel (s_m s) 0)) \<subset> set (lits (TrimToLevel (s_m t) 0))"
    using r1 c2 l1(1) l2(1) 3 by blast
  from 1 4 5 enumerates_ascending show ?thesis
    unfolding u_def by blast
qed

end
